theory Spec2Isabelle
  imports Main
begin

section \<open>JavaScript strings\<close>

text \<open>
  A JavaScript string is a sequence of UTF-16 code units. The model of the two scripts uses
  \<^typ>\<open>string\<close>, whose characters are the code units \<open>0x00 .. 0xFF\<close> (ASCII and the
  Latin-1 supplement); on that range every string operation below is the one of ECMAScript.
  The section on wider code units repeats the classification of the commit-message hook
  for strings that may also hold \<open>U+212A\<close>, \<open>U+0130\<close> and \<open>U+0307\<close>, where
  \<open>toLowerCase\<close> and the flag \<open>i\<close> part ways. Other code units above \<open>0xFF\<close> are
  outside the model.
\<close>

text \<open>\<open>WhiteSpace\<close> and \<open>LineTerminator\<close> of ECMAScript: TAB, LF, VT, FF, CR, SP, NBSP.\<close>

definition isLineTerminator :: "char \<Rightarrow> bool" where
  "isLineTerminator c = (let n = (of_char c :: nat) in n = 10 \<or> n = 13)"

definition isWhiteSpace :: "char \<Rightarrow> bool" where
  "isWhiteSpace c = (let n = (of_char c :: nat) in (9 \<le> n \<and> n \<le> 13) \<or> n = 32 \<or> n = 160)"

text \<open>\<open>String.prototype.trim\<close>: strip white space and line terminators at both ends.\<close>

definition trim :: "string \<Rightarrow> string" where
  "trim s = rev (dropWhile isWhiteSpace (rev (dropWhile isWhiteSpace s)))"

text \<open>
  \<open>String.prototype.toLowerCase\<close>: \<open>A-Z\<close> and the Latin-1 capitals \<open>0xC0 .. 0xDE\<close>
  (but the multiplication sign \<open>0xD7\<close>) move up by 32; every other code unit stays.
\<close>

definition toLowerChar :: "char \<Rightarrow> char" where
  "toLowerChar c =
     (let n = (of_char c :: nat)
      in if (65 \<le> n \<and> n \<le> 90) \<or> (192 \<le> n \<and> n \<le> 222 \<and> n \<noteq> 215)
         then char_of (n + 32) else c)"

definition toLowerCase :: "string \<Rightarrow> string" where
  "toLowerCase s = map toLowerChar s"

text \<open>\<open>String.prototype.includes\<close>: does \<open>p\<close> occur in \<open>s\<close> at some position?\<close>

fun startsWith :: "string \<Rightarrow> string \<Rightarrow> bool" where
  "startsWith s [] = True"
| "startsWith [] (q # p) = False"
| "startsWith (c # s) (q # p) = (c = q \<and> startsWith s p)"

fun includes_str :: "string \<Rightarrow> string \<Rightarrow> bool" where
  "includes_str [] p = startsWith [] p"
| "includes_str (c # s) p = (startsWith (c # s) p \<or> includes_str s p)"

text \<open>\<open>Array.prototype.some\<close> with a side-effect-free callback.\<close>

fun some :: "('a \<Rightarrow> bool) \<Rightarrow> 'a list \<Rightarrow> bool" where
  "some f [] = False"
| "some f (x # xs) = (f x \<or> some f xs)"

section \<open>Regular expressions\<close>

text \<open>
  The patterns of the two scripts use literal characters, the classes \<open>\s\<close>, \<open>\w\<close>,
  \<open>\d\<close>, \<open>.\<close> and \<open>[a-z]\<close>, the assertions \<open>^\<close> and \<open>$\<close>, sequence, alternation,
  groups and the greedy quantifiers \<open>?\<close>, \<open>*\<close>, \<open>+\<close> and \<open>{2,}\<close>. No pattern has a
  back-reference, so a capturing group matches as its body does. The only flag that occurs
  is \<open>i\<close>; without the flag \<open>m\<close>, \<open>^\<close> holds at index 0 only and \<open>$\<close> at the end of the
  input only.
\<close>

datatype cclass = Whitespace | WordChar | Digit | AnyChar | CharRange char char

datatype rx =
    Empty
  | Chr char
  | Cls cclass
  | Bol
  | Eol
  | Seq rx rx
  | Alt rx rx
  | Rep nat "nat option" rx

abbreviation Opt :: "rx \<Rightarrow> rx" where "Opt r \<equiv> Rep 0 (Some 1) r"
abbreviation Star :: "rx \<Rightarrow> rx" where "Star r \<equiv> Rep 0 None r"
abbreviation Plus :: "rx \<Rightarrow> rx" where "Plus r \<equiv> Rep 1 None r"

text \<open>A sequence of terms, a choice between alternatives, the characters of a word.\<close>

fun seqs :: "rx list \<Rightarrow> rx" where
  "seqs [] = Empty"
| "seqs [r] = r"
| "seqs (r # rs) = Seq r (seqs rs)"

fun alts :: "rx list \<Rightarrow> rx" where
  "alts [] = Empty"
| "alts [r] = r"
| "alts (r # rs) = Alt r (alts rs)"

definition word :: "string \<Rightarrow> rx" where
  "word cs = seqs (map Chr cs)"

text \<open>
  \<open>Canonicalize\<close> (non-Unicode mode): with the flag \<open>i\<close> a code unit is replaced by its
  upper-case form when that is a single code unit, unless this would turn a non-ASCII
  code unit into an ASCII one. The result may lie above \<open>0xFF\<close> (for \<open>0xFF\<close> and \<open>0xB5\<close>),
  so it is a number.
\<close>

definition canonicalize :: "bool \<Rightarrow> char \<Rightarrow> nat" where
  "canonicalize ic c =
     (let n = (of_char c :: nat)
      in if \<not> ic then n
         else if (97 \<le> n \<and> n \<le> 122) \<or> (224 \<le> n \<and> n \<le> 254 \<and> n \<noteq> 247) then n - 32
         else if n = 255 then 376
         else if n = 181 then 924
         else n)"

definition isDigit :: "char \<Rightarrow> bool" where
  "isDigit c = (let n = (of_char c :: nat) in 48 \<le> n \<and> n \<le> 57)"

definition isWordChar :: "char \<Rightarrow> bool" where
  "isWordChar c =
     (let n = (of_char c :: nat)
      in (97 \<le> n \<and> n \<le> 122) \<or> (65 \<le> n \<and> n \<le> 90) \<or> (48 \<le> n \<and> n \<le> 57) \<or> n = 95)"

text \<open>
  A class matches a code unit when one of its members has the same canonical form. For
  \<open>\s\<close>, \<open>\d\<close>, \<open>\w\<close> and \<open>.\<close> no code unit outside the class has the canonical form of a
  member, so membership is tested directly; for a range the members are enumerated.
\<close>

definition rangeMembers :: "char \<Rightarrow> char \<Rightarrow> char list" where
  "rangeMembers lo hi = map char_of [of_char lo ..< Suc (of_char hi)]"

fun classMatch :: "bool \<Rightarrow> cclass \<Rightarrow> char \<Rightarrow> bool" where
  "classMatch ic Whitespace c = isWhiteSpace c"
| "classMatch ic WordChar c = isWordChar c"
| "classMatch ic Digit c = isDigit c"
| "classMatch ic AnyChar c = (\<not> isLineTerminator c)"
| "classMatch ic (CharRange lo hi) c =
     some (\<lambda>a. canonicalize ic a = canonicalize ic c) (rangeMembers lo hi)"

text \<open>The size of a pattern, not counting the bounds of its quantifiers.\<close>

fun rxSize :: "rx \<Rightarrow> nat" where
  "rxSize (Seq a b) = Suc (rxSize a + rxSize b)"
| "rxSize (Alt a b) = Suc (rxSize a + rxSize b)"
| "rxSize (Rep mn mx r) = Suc (rxSize r)"
| "rxSize r = 0"

text \<open>
  The backtracking matcher. \<open>ends ic s r i\<close> lists, in the order in which backtracking
  tries them, the end indices of the matches of \<open>r\<close> in \<open>s\<close> that start at index \<open>i\<close>.
  A quantifier follows \<open>RepeatMatcher\<close>: it stops when its maximum is 0; an iteration
  that is not required (minimum 0) and consumes nothing is dropped; being greedy it tries
  one more iteration before it tries to stop. The test that an iteration ends inside the
  input, at or after its start, is there for the termination proof; \<open>ends_Rep_unguarded\<close>
  shows that it holds of every iteration.
\<close>

function ends :: "bool \<Rightarrow> string \<Rightarrow> rx \<Rightarrow> nat \<Rightarrow> nat list" where
  "ends ic s Empty i = [i]"
| "ends ic s (Chr c) i =
     (if i < length s \<and> canonicalize ic (s ! i) = canonicalize ic c then [Suc i] else [])"
| "ends ic s (Cls k) i =
     (if i < length s \<and> classMatch ic k (s ! i) then [Suc i] else [])"
| "ends ic s Bol i = (if i = 0 then [i] else [])"
| "ends ic s Eol i = (if i = length s then [i] else [])"
| "ends ic s (Seq a b) i = concat (map (\<lambda>j. ends ic s b j) (ends ic s a i))"
| "ends ic s (Alt a b) i = ends ic s a i @ ends ic s b i"
| "ends ic s (Rep mn mx r) i =
     (if mx = Some 0 then [i]
      else concat (map (\<lambda>j. if (if mn = 0 then i < j else i \<le> j) \<and> j \<le> length s
                             then ends ic s (Rep (mn - 1) (map_option (\<lambda>m. m - 1) mx) r) j
                             else [])
                       (ends ic s r i))
           @ (if mn = 0 then [i] else []))"
  by pat_completeness auto
termination
  by (relation "measures [\<lambda>(ic, s, r, i). rxSize r, \<lambda>(ic, s, r, i). length s - i,
                           \<lambda>(ic, s, r, i). (case r of Rep mn mx r' \<Rightarrow> mn | _ \<Rightarrow> 0)]")
     (auto split: if_splits)

declare ends.simps(8) [simp del]

text \<open>
  A \<open>RegExp\<close> object: its pattern, its flags \<open>i\<close> and \<open>g\<close>, and its mutable property
  \<open>lastIndex\<close>.
\<close>

record regexp =
  source :: rx
  ignoreCase :: bool
  global :: bool
  lastIndex :: nat

text \<open>
  The search loop of \<open>RegExpBuiltinExec\<close>: try the start indices \<open>i, i + 1, ..\<close> up to
  the length of the input; the first start index with a match gives the end index of its
  first match.
\<close>

function searchFrom :: "bool \<Rightarrow> string \<Rightarrow> rx \<Rightarrow> nat \<Rightarrow> nat option" where
  "searchFrom ic s r i =
     (if length s < i then None
      else (case ends ic s r i of
              e # es \<Rightarrow> Some e
            | [] \<Rightarrow> searchFrom ic s r (Suc i)))"
  by pat_completeness auto
termination
  by (relation "measure (\<lambda>(ic, s, r, i). Suc (length s) - i)") auto

declare searchFrom.simps [simp del]

text \<open>
  \<open>RegExp.prototype.test\<close>: only a global regular expression reads \<open>lastIndex\<close> and
  writes it back (the end of the match, or 0 on failure).
\<close>

definition regexpTest :: "regexp \<Rightarrow> string \<Rightarrow> bool \<times> regexp" where
  "regexpTest R s =
     (case searchFrom (ignoreCase R) s (source R) (if global R then lastIndex R else 0) of
        None \<Rightarrow> (False, if global R then R\<lparr>lastIndex := 0\<rparr> else R)
      | Some e \<Rightarrow> (True, if global R then R\<lparr>lastIndex := e\<rparr> else R))"

text \<open>
  \<open>regexes.some((regex) => regex.test(s))\<close>: the objects are tested in order until one
  matches; the objects tested so far are returned as \<open>test\<close> left them.
\<close>

fun someTest :: "regexp list \<Rightarrow> string \<Rightarrow> bool \<times> regexp list" where
  "someTest [] s = (False, [])"
| "someTest (R # Rs) s =
     (case regexpTest R s of
        (True, R') \<Rightarrow> (True, R' # Rs)
      | (False, R') \<Rightarrow> (case someTest Rs s of (b, Rs') \<Rightarrow> (b, R' # Rs')))"

text \<open>\<open>String.prototype.match\<close> with a non-global pattern: the result is \<open>null\<close> or a match.\<close>

definition matchNonGlobal :: "bool \<Rightarrow> rx \<Rightarrow> string \<Rightarrow> nat option" where
  "matchNonGlobal ic r s = searchFrom ic s r 0"

section \<open>The world of a run\<close>

text \<open>
  What a run of either script reads: the first command-line argument, the file system
  through \<open>fs.existsSync\<close> and \<open>fs.readFileSync\<close>, and the two \<open>git\<close> commands through
  \<open>execSync\<close>. \<open>execSync\<close> throws when the command cannot be run, exits with a
  non-zero status or writes more than the output buffer holds; \<open>readFileSync\<close> throws
  when the path cannot be read as a file.
\<close>

datatype js_error = ExecSyncError | ReadFileError

record world =
  argv2 :: "string option"
  existsSync :: "string \<Rightarrow> bool"
  readFileSync :: "string \<Rightarrow> js_error + string"
  gitDiffCached :: "js_error + string"
  gitLogLast :: "js_error + string"

text \<open>
  One constructor for each \<open>console.log\<close> call of the scripts; the first carries the
  commit message that the line quotes.
\<close>

datatype log_line =
    TrivialMessageDetected string
  | ShouldBeInMeaningfulCommit
  | PleaseUseAmend
  | KeepsHistoryClean
  | MessageOkProceeding
  | TrivialChangesError
  | PleaseUseAmendPrevious
  | MessageAndChangesOkProceeding

text \<open>
  How a run ends: \<open>process.exit(code)\<close> after the lines logged so far, or an exception
  that nothing catches. Node ends a process with an uncaught exception with status 1.
\<close>

datatype outcome = Exit nat "log_line list" | Uncaught js_error

fun exitStatus :: "outcome \<Rightarrow> nat" where
  "exitStatus (Exit n out) = n"
| "exitStatus (Uncaught e) = 1"

section \<open>The commit-message hook (\<open>src/unnamed/part_001\<close>)\<close>

definition trivialPatterns :: "string list" where
  "trivialPatterns =
     [''fix typo'', ''typo'', ''fixed typo'', ''correct typo'', ''spelling'',
      ''correct spelling'', ''fixed spelling'', ''grammar'', ''fix grammar'',
      ''minor'', ''minor update'', ''minor fix'', ''minor change'', ''small fix'',
      ''small change'', ''tiny fix'', ''quick fix'', ''hotfix typo'',
      ''format'', ''formatting'', ''fix format'', ''adjust format'', ''fix formatting'',
      ''whitespace'', ''refactor whitespace'', ''fix whitespace'', ''indentation'',
      ''fix indentation'', ''lint'', ''linting'', ''fix lint'', ''prettier'', ''eslint fix'',
      ''update docs'', ''docs update'', ''readme update'', ''update readme'', ''comment'',
      ''add comment'', ''fix comment'', ''update comment'',
      ''cleanup'', ''clean up'', ''tidy'', ''tidy up'', ''cosmetic'', ''nit'', ''nitpick'',
      ''oops'', ''wip'', ''temp'', ''test commit'', ''remove console.log'', ''remove log'',
      ''remove debug'', ''fix import'', ''unused import'', ''remove unused'']"

text \<open>A regular-expression literal: not global, \<open>lastIndex\<close> 0.\<close>

definition regexLiteral :: "rx \<Rightarrow> bool \<Rightarrow> regexp" where
  "regexLiteral r i = \<lparr>source = r, ignoreCase = i, global = False, lastIndex = 0\<rparr>"

definition trivialRegexPatterns :: "regexp list" where
  "trivialRegexPatterns =
     [regexLiteral (seqs [Bol, word ''fix'', Opt (alts [word ''ed'', word ''es'', word ''ing'']),
                          Star (Cls Whitespace), Opt (Seq (Chr CHR ''a'') (Plus (Cls Whitespace))),
                          word ''typo'', Opt (Chr CHR ''s''), Eol]) True,
      regexLiteral (seqs [Bol, word ''typo'', Opt (Chr CHR ''s''), Eol]) True,
      regexLiteral (seqs [Bol, word ''minor'', Opt (Seq (Plus (Cls Whitespace)) (Plus (Cls WordChar))), Eol]) True,
      regexLiteral (seqs [Bol, word ''small'', Opt (Seq (Plus (Cls Whitespace)) (Plus (Cls WordChar))), Eol]) True,
      regexLiteral (seqs [Bol, word ''quick'', Opt (Seq (Plus (Cls Whitespace)) (Plus (Cls WordChar))), Eol]) True,
      regexLiteral (seqs [Bol, word ''wip'', Eol]) True,
      regexLiteral (seqs [Bol, word ''temp'', Eol]) True,
      regexLiteral (seqs [Bol, word ''test'', Eol]) True,
      regexLiteral (seqs [Bol, Plus (Chr CHR ''.''), Eol]) False,
      regexLiteral (seqs [Bol, Plus (Chr CHR ''-''), Eol]) False,
      regexLiteral (seqs [Bol, word ''update'', Opt (alts [Chr CHR ''d'', Chr CHR ''s'']), Eol]) True,
      regexLiteral (seqs [Bol, word ''fix'', Opt (alts [word ''ed'', word ''es'']), Eol]) True,
      regexLiteral (seqs [Bol, word ''change'', Opt (alts [Chr CHR ''d'', Chr CHR ''s'']), Eol]) True,
      regexLiteral (seqs [Bol, word ''edit'', Opt (alts [word ''ed'', Chr CHR ''s'']), Eol]) True,
      regexLiteral (seqs [Bol, word ''oops'', Opt (Chr CHR ''!''), Eol]) True,
      regexLiteral (seqs [Bol, word ''fmt'', Eol]) True,
      regexLiteral (seqs [Bol, word ''lint'', Opt (word ''ing''), Eol]) True,
      regexLiteral (seqs [Bol, word ''cleanup'', Eol]) True,
      regexLiteral (seqs [Bol, word ''refactor'', Eol]) True,
      regexLiteral (seqs [Bol, word ''stuff'', Eol]) True,
      regexLiteral (seqs [Bol, word ''things'', Eol]) True,
      regexLiteral (seqs [Bol, word ''misc'', Eol]) True,
      regexLiteral (seqs [Bol, Cls (CharRange CHR ''a'' CHR ''z''), Eol]) True,
      regexLiteral (seqs [Bol, Plus (Cls Digit), Eol]) False]"

text \<open>
  \<open>getCommitMessage\<close>: the trimmed content of the file named by the first argument; the
  empty string when there is no argument (an absent or empty one is falsy) or no such file.
\<close>

definition getCommitMessage :: "world \<Rightarrow> js_error + string" where
  "getCommitMessage w =
     (case argv2 w of
        None \<Rightarrow> Inr []
      | Some commitMsgFile \<Rightarrow>
          if commitMsgFile \<noteq> [] \<and> existsSync w commitMsgFile
          then (case readFileSync w commitMsgFile of
                  Inl e \<Rightarrow> Inl e
                | Inr content \<Rightarrow> Inr (trim content))
          else Inr [])"

definition getStagedChanges :: "world \<Rightarrow> js_error + string" where
  "getStagedChanges w =
     (case gitDiffCached w of Inl e \<Rightarrow> Inl e | Inr out \<Rightarrow> Inr (trim out))"

text \<open>
  \<open>isTrivialChange\<close>, the same in both scripts: \<open>diff.match\<close> of the pattern
  \<open>(\s{2,}|^\+.*\.(md|txt|rst)$)\<close>, which has no flag; the result is \<open>null\<close> or a match,
  and the callers only test whether it is \<open>null\<close>.
\<close>

definition whitespaceRun :: rx where
  "whitespaceRun = Rep 2 None (Cls Whitespace)"

definition docAddition :: rx where
  "docAddition =
     seqs [Bol, Chr CHR ''+'', Star (Cls AnyChar), Chr CHR ''.'',
           alts [word ''md'', word ''txt'', word ''rst''], Eol]"

definition trivialChangeRegex :: rx where
  "trivialChangeRegex = Alt whitespaceRun docAddition"

definition isTrivialChange :: "string \<Rightarrow> bool" where
  "isTrivialChange diff = (matchNonGlobal False trivialChangeRegex diff \<noteq> None)"

text \<open>The three flags that \<open>main\<close> computes from the commit message.\<close>

definition isTrivialCommitMessage :: "string \<Rightarrow> bool" where
  "isTrivialCommitMessage commitMessage =
     some (\<lambda>pattern. includes_str (toLowerCase commitMessage) (toLowerCase pattern))
          trivialPatterns"

definition matchesTrivialRegex :: "string \<Rightarrow> bool" where
  "matchesTrivialRegex commitMessage =
     fst (someTest trivialRegexPatterns (trim commitMessage))"

definition isTooShort :: "string \<Rightarrow> bool" where
  "isTooShort commitMessage = (length (trim commitMessage) < 4)"

text \<open>
  \<open>main\<close>: both sources are read first; an empty message ends the run with status 0 and no
  output; a message with one of the three flags is reported and the run ends with status 1.
\<close>

definition main :: "world \<Rightarrow> outcome" where
  "main w =
     (case getCommitMessage w of
        Inl e \<Rightarrow> Uncaught e
      | Inr commitMessage \<Rightarrow>
          (case getStagedChanges w of
             Inl e \<Rightarrow> Uncaught e
           | Inr diff \<Rightarrow>
               if commitMessage = [] then Exit 0 []
               else if isTrivialCommitMessage commitMessage \<or> matchesTrivialRegex commitMessage
                       \<or> isTooShort commitMessage
               then Exit 1 [TrivialMessageDetected commitMessage, ShouldBeInMeaningfulCommit,
                            PleaseUseAmend, KeepsHistoryClean]
               else Exit 0 [MessageOkProceeding]))"

section \<open>The earlier hook (\<open>src/scripts/check-commit.js\<close>)\<close>

definition trivialPatterns_cc :: "string list" where
  "trivialPatterns_cc =
     [''fix typo'', ''minor update'', ''update docs'', ''correct spelling'', ''adjust format'',
      ''refactor whitespace'']"

definition getLastCommitMessage :: "world \<Rightarrow> js_error + string" where
  "getLastCommitMessage w =
     (case gitLogLast w of Inl e \<Rightarrow> Inl e | Inr out \<Rightarrow> Inr (trim out))"

definition isTrivialCommitMessage_cc :: "string \<Rightarrow> bool" where
  "isTrivialCommitMessage_cc commitMessage =
     some (\<lambda>pattern. includes_str (toLowerCase commitMessage) pattern) trivialPatterns_cc"

definition main_cc :: "world \<Rightarrow> outcome" where
  "main_cc w =
     (case getLastCommitMessage w of
        Inl e \<Rightarrow> Uncaught e
      | Inr commitMessage \<Rightarrow>
          (case getStagedChanges w of
             Inl e \<Rightarrow> Uncaught e
           | Inr diff \<Rightarrow>
               if isTrivialCommitMessage_cc commitMessage \<and> isTrivialChange diff
               then Exit 1 [TrivialChangesError, PleaseUseAmendPrevious]
               else Exit 0 [MessageAndChangesOkProceeding]))"

section \<open>The classification on wider code units\<close>

text \<open>
  A code unit of this section is one of \<open>0x00 .. 0xFF\<close>, the Kelvin sign \<open>U+212A\<close>, the
  capital I with dot above \<open>U+0130\<close>, or the combining dot above \<open>U+0307\<close>. None of the
  three is white space, a line terminator, a digit or a word character of \<open>\w\<close>.
\<close>

datatype unit16 = Latin char | KelvinSign | CapitalIDotAbove | CombiningDotAbove

fun codeUnit :: "unit16 \<Rightarrow> nat" where
  "codeUnit (Latin c) = of_char c"
| "codeUnit KelvinSign = 8490"
| "codeUnit CapitalIDotAbove = 304"
| "codeUnit CombiningDotAbove = 775"

fun isWhiteSpaceW :: "unit16 \<Rightarrow> bool" where
  "isWhiteSpaceW (Latin c) = isWhiteSpace c"
| "isWhiteSpaceW u = False"

fun isLineTerminatorW :: "unit16 \<Rightarrow> bool" where
  "isLineTerminatorW (Latin c) = isLineTerminator c"
| "isLineTerminatorW u = False"

definition trimW :: "unit16 list \<Rightarrow> unit16 list" where
  "trimW s = rev (dropWhile isWhiteSpaceW (rev (dropWhile isWhiteSpaceW s)))"

text \<open>
  \<open>String.prototype.toLowerCase\<close>: the Kelvin sign becomes \<open>k\<close>, the capital I with dot
  above becomes \<open>i\<close> followed by the combining dot above, which has no case.
\<close>

fun toLowerUnits :: "unit16 \<Rightarrow> unit16 list" where
  "toLowerUnits (Latin c) = [Latin (toLowerChar c)]"
| "toLowerUnits KelvinSign = [Latin CHR ''k'']"
| "toLowerUnits CapitalIDotAbove = [Latin CHR ''i'', CombiningDotAbove]"
| "toLowerUnits CombiningDotAbove = [CombiningDotAbove]"

definition toLowerCaseW :: "unit16 list \<Rightarrow> unit16 list" where
  "toLowerCaseW s = concat (map toLowerUnits s)"

fun startsWithW :: "unit16 list \<Rightarrow> unit16 list \<Rightarrow> bool" where
  "startsWithW s [] = True"
| "startsWithW [] (q # p) = False"
| "startsWithW (c # s) (q # p) = (c = q \<and> startsWithW s p)"

fun includesW :: "unit16 list \<Rightarrow> unit16 list \<Rightarrow> bool" where
  "includesW [] p = startsWithW [] p"
| "includesW (c # s) p = (startsWithW (c # s) p \<or> includesW s p)"

text \<open>
  \<open>Canonicalize\<close>: the upper-case forms of \<open>U+212A\<close> and \<open>U+0130\<close> are these code units
  themselves, so the flag \<open>i\<close> leaves all three wide code units as they are. The patterns
  are those of the scripts, so a pattern character is still a \<^typ>\<open>char\<close>.
\<close>

fun canonicalizeW :: "bool \<Rightarrow> unit16 \<Rightarrow> nat" where
  "canonicalizeW ic (Latin c) = canonicalize ic c"
| "canonicalizeW ic u = codeUnit u"

fun classMatchW :: "bool \<Rightarrow> cclass \<Rightarrow> unit16 \<Rightarrow> bool" where
  "classMatchW ic Whitespace u = isWhiteSpaceW u"
| "classMatchW ic WordChar (Latin c) = isWordChar c"
| "classMatchW ic WordChar u = False"
| "classMatchW ic Digit (Latin c) = isDigit c"
| "classMatchW ic Digit u = False"
| "classMatchW ic AnyChar u = (\<not> isLineTerminatorW u)"
| "classMatchW ic (CharRange lo hi) u =
     some (\<lambda>a. canonicalize ic a = canonicalizeW ic u) (rangeMembers lo hi)"

text \<open>The matcher, the search and \<open>test\<close>, as before.\<close>

function endsW :: "bool \<Rightarrow> unit16 list \<Rightarrow> rx \<Rightarrow> nat \<Rightarrow> nat list" where
  "endsW ic s Empty i = [i]"
| "endsW ic s (Chr c) i =
     (if i < length s \<and> canonicalizeW ic (s ! i) = canonicalize ic c then [Suc i] else [])"
| "endsW ic s (Cls k) i =
     (if i < length s \<and> classMatchW ic k (s ! i) then [Suc i] else [])"
| "endsW ic s Bol i = (if i = 0 then [i] else [])"
| "endsW ic s Eol i = (if i = length s then [i] else [])"
| "endsW ic s (Seq a b) i = concat (map (\<lambda>j. endsW ic s b j) (endsW ic s a i))"
| "endsW ic s (Alt a b) i = endsW ic s a i @ endsW ic s b i"
| "endsW ic s (Rep mn mx r) i =
     (if mx = Some 0 then [i]
      else concat (map (\<lambda>j. if (if mn = 0 then i < j else i \<le> j) \<and> j \<le> length s
                             then endsW ic s (Rep (mn - 1) (map_option (\<lambda>m. m - 1) mx) r) j
                             else [])
                       (endsW ic s r i))
           @ (if mn = 0 then [i] else []))"
  by pat_completeness auto
termination
  by (relation "measures [\<lambda>(ic, s, r, i). rxSize r, \<lambda>(ic, s, r, i). length s - i,
                           \<lambda>(ic, s, r, i). (case r of Rep mn mx r' \<Rightarrow> mn | _ \<Rightarrow> 0)]")
     (auto split: if_splits)

declare endsW.simps(8) [simp del]

function searchFromW :: "bool \<Rightarrow> unit16 list \<Rightarrow> rx \<Rightarrow> nat \<Rightarrow> nat option" where
  "searchFromW ic s r i =
     (if length s < i then None
      else (case endsW ic s r i of
              e # es \<Rightarrow> Some e
            | [] \<Rightarrow> searchFromW ic s r (Suc i)))"
  by pat_completeness auto
termination
  by (relation "measure (\<lambda>(ic, s, r, i). Suc (length s) - i)") auto

declare searchFromW.simps [simp del]

definition regexpTestW :: "regexp \<Rightarrow> unit16 list \<Rightarrow> bool \<times> regexp" where
  "regexpTestW R s =
     (case searchFromW (ignoreCase R) s (source R) (if global R then lastIndex R else 0) of
        None \<Rightarrow> (False, if global R then R\<lparr>lastIndex := 0\<rparr> else R)
      | Some e \<Rightarrow> (True, if global R then R\<lparr>lastIndex := e\<rparr> else R))"

fun someTestW :: "regexp list \<Rightarrow> unit16 list \<Rightarrow> bool \<times> regexp list" where
  "someTestW [] s = (False, [])"
| "someTestW (R # Rs) s =
     (case regexpTestW R s of
        (True, R') \<Rightarrow> (True, R' # Rs)
      | (False, R') \<Rightarrow> (case someTestW Rs s of (b, Rs') \<Rightarrow> (b, R' # Rs')))"

text \<open>The three flags of \<open>main\<close>; the phrases are those of \<open>trivialPatterns\<close>.\<close>

definition isTrivialCommitMessageW :: "unit16 list \<Rightarrow> bool" where
  "isTrivialCommitMessageW commitMessage =
     some (\<lambda>pattern. includesW (toLowerCaseW commitMessage) (toLowerCaseW (map Latin pattern)))
          trivialPatterns"

definition matchesTrivialRegexW :: "unit16 list \<Rightarrow> bool" where
  "matchesTrivialRegexW commitMessage =
     fst (someTestW trivialRegexPatterns (trimW commitMessage))"

definition isTooShortW :: "unit16 list \<Rightarrow> bool" where
  "isTooShortW commitMessage = (length (trimW commitMessage) < 4)"

section \<open>Worlds and predicates used in the statements\<close>

text \<open>
  A run as the \<open>commit-msg\<close> hook: the argument names the message file, which holds
  \<open>content\<close>; nothing is staged and the repository has no commit yet, so \<open>git log -1\<close>
  exits with status 128 and \<open>execSync\<close> throws.
\<close>

definition hookWorld :: "string \<Rightarrow> world" where
  "hookWorld content =
     \<lparr>argv2 = Some ''.git/COMMIT_EDITMSG'',
      existsSync = (\<lambda>p. p = ''.git/COMMIT_EDITMSG''),
      readFileSync = (\<lambda>p. if p = ''.git/COMMIT_EDITMSG'' then Inr content else Inl ReadFileError),
      gitDiffCached = Inr [],
      gitLogLast = Inl ExecSyncError\<rparr>"

text \<open>
  A run with no argument in a repository that has no commit yet and nothing staged:
  \<open>git diff --cached\<close> prints nothing, \<open>git log -1\<close> fails.
\<close>

definition emptyRepoWorld :: world where
  "emptyRepoWorld =
     \<lparr>argv2 = None,
      existsSync = (\<lambda>p. False),
      readFileSync = (\<lambda>p. Inl ReadFileError),
      gitDiffCached = Inr [],
      gitLogLast = Inl ExecSyncError\<rparr>"

text \<open>The hook run of \<open>hookWorld\<close>, but with \<open>git diff --cached\<close> failing.\<close>

definition brokenDiffWorld :: "string \<Rightarrow> world" where
  "brokenDiffWorld content = (hookWorld content)\<lparr>gitDiffCached := Inl ExecSyncError\<rparr>"

text \<open>A run whose argument names a file that does not exist.\<close>

definition missingFileWorld :: "js_error + string \<Rightarrow> world" where
  "missingFileWorld diffResult =
     \<lparr>argv2 = Some ''.git/COMMIT_EDITMSG'',
      existsSync = (\<lambda>p. False),
      readFileSync = (\<lambda>p. Inl ReadFileError),
      gitDiffCached = diffResult,
      gitLogLast = Inr ''Initial commit''\<rparr>"

text \<open>
  A run in which the message file and the most recent commit hold the same message, with
  the given staged diff.
\<close>

definition repoWorld :: "string \<Rightarrow> string \<Rightarrow> world" where
  "repoWorld message diff =
     \<lparr>argv2 = Some ''.git/COMMIT_EDITMSG'',
      existsSync = (\<lambda>p. p = ''.git/COMMIT_EDITMSG''),
      readFileSync = (\<lambda>p. if p = ''.git/COMMIT_EDITMSG'' then Inr message else Inl ReadFileError),
      gitDiffCached = Inr diff,
      gitLogLast = Inr message\<rparr>"

text \<open>
  A pattern is anchored at the start when every match has to pass \<open>^\<close> first, and at
  the end when every match has to pass \<open>$\<close> last.
\<close>

fun bolAnchored :: "rx \<Rightarrow> bool" where
  "bolAnchored Bol = True"
| "bolAnchored (Seq a b) = bolAnchored a"
| "bolAnchored (Alt a b) = (bolAnchored a \<and> bolAnchored b)"
| "bolAnchored r = False"

fun eolAnchored :: "rx \<Rightarrow> bool" where
  "eolAnchored Eol = True"
| "eolAnchored (Seq a b) = eolAnchored b"
| "eolAnchored (Alt a b) = (eolAnchored a \<and> eolAnchored b)"
| "eolAnchored r = False"

text \<open>Two \<open>RegExp\<close> objects that differ at most in \<open>lastIndex\<close>.\<close>

definition sameButLastIndex :: "regexp \<Rightarrow> regexp \<Rightarrow> bool" where
  "sameButLastIndex R R' =
     (source R' = source R \<and> ignoreCase R' = ignoreCase R \<and> global R' = global R)"

text \<open>
  A pattern is blind to case when each of its literal characters is either compared under
  the flag \<open>i\<close> or has no other case form, and each range is compared under the flag \<open>i\<close>.
\<close>

fun caseBlind :: "bool \<Rightarrow> rx \<Rightarrow> bool" where
  "caseBlind ic (Chr c) = (ic \<or> (toLowerChar c = c \<and> canonicalize True c = of_char c))"
| "caseBlind ic (Cls (CharRange lo hi)) = ic"
| "caseBlind ic (Seq a b) = (caseBlind ic a \<and> caseBlind ic b)"
| "caseBlind ic (Alt a b) = (caseBlind ic a \<and> caseBlind ic b)"
| "caseBlind ic (Rep mn mx r) = caseBlind ic r"
| "caseBlind ic r = True"

text \<open>
  The two ways in which a diff can look trivial, in words: it holds two white-space
  characters in a row, or it is a single line that starts with \<open>+\<close> and ends in
  \<open>.md\<close>, \<open>.txt\<close> or \<open>.rst\<close>.
\<close>

fun hasWhitespaceRun :: "string \<Rightarrow> bool" where
  "hasWhitespaceRun (a # b # cs) = ((isWhiteSpace a \<and> isWhiteSpace b) \<or> hasWhitespaceRun (b # cs))"
| "hasWhitespaceRun cs = False"

definition endsWith :: "string \<Rightarrow> string \<Rightarrow> bool" where
  "endsWith s p = startsWith (rev s) (rev p)"

definition isDocAdditionLine :: "string \<Rightarrow> bool" where
  "isDocAdditionLine d =
     (case d of
        [] \<Rightarrow> False
      | c # rest \<Rightarrow>
          c = CHR ''+'' \<and> \<not> some isLineTerminator rest \<and>
          (endsWith rest ''.md'' \<or> endsWith rest ''.txt'' \<or> endsWith rest ''.rst''))"

section \<open>Strings and \<open>some\<close>\<close>

lemma startsWith_iff: "startsWith s p \<longleftrightarrow> (\<exists>post. s = p @ post)"
  by (induction s p rule: startsWith.induct) auto

lemma includes_str_iff: "includes_str s p \<longleftrightarrow> (\<exists>pre post. s = pre @ p @ post)"
proof (induction s)
  case Nil
  show ?case by (simp add: startsWith_iff)
next
  case (Cons c s)
  show ?case
  proof
    assume "includes_str (c # s) p"
    then consider "startsWith (c # s) p" | "includes_str s p" by auto
    then show "\<exists>pre post. c # s = pre @ p @ post"
    proof cases
      case 1
      then obtain post where "c # s = p @ post" unfolding startsWith_iff ..
      then have "c # s = [] @ p @ post" by simp
      then show ?thesis by blast
    next
      case 2
      with Cons.IH obtain pre post where "s = pre @ p @ post" by blast
      then have "c # s = (c # pre) @ p @ post" by simp
      then show ?thesis by blast
    qed
  next
    assume "\<exists>pre post. c # s = pre @ p @ post"
    then obtain pre post where e: "c # s = pre @ p @ post" by blast
    show "includes_str (c # s) p"
    proof (cases pre)
      case Nil
      with e have "startsWith (c # s) p" unfolding startsWith_iff by auto
      then show ?thesis by simp
    next
      case (Cons x pre')
      with e have "s = pre' @ p @ post" by simp
      with Cons.IH have "includes_str s p" by blast
      then show ?thesis by simp
    qed
  qed
qed

lemma some_iff: "some f xs \<longleftrightarrow> (\<exists>x\<in>set xs. f x)"
  by (induction xs) auto

lemma trim_Nil: "trim [] = []"
  by (simp add: trim_def)

section \<open>The substring rule\<close>

lemma trivialPatterns_lower: "map toLowerCase trivialPatterns = trivialPatterns"
  by code_simp

lemma trivialPatterns_lower_elem: "p \<in> set trivialPatterns \<Longrightarrow> toLowerCase p = p"
  using trivialPatterns_lower by (metis map_idI map_eq_conv id_apply)

lemma trivialPatterns_nonempty: "p \<in> set trivialPatterns \<Longrightarrow> p \<noteq> []"
  by (auto simp: trivialPatterns_def)

lemma isTrivialCommitMessage_iff:
  "isTrivialCommitMessage m \<longleftrightarrow>
     (\<exists>p\<in>set trivialPatterns. \<exists>pre post. toLowerCase m = pre @ p @ post)"
  by (simp add: isTrivialCommitMessage_def some_iff includes_str_iff trivialPatterns_lower_elem)

text \<open>
  Claim C1. Let \<open>m\<close> be the commit message that \<open>main\<close> works with (both reads return).
  If the lower-cased \<open>m\<close> contains an entry \<open>p\<close> of \<open>trivialPatterns\<close> anywhere (with
  nothing before and after it, \<open>m\<close> equals \<open>p\<close> up to case), the flag of the substring rule,
  \<open>isTrivialCommitMessage\<close>, holds and the commit is blocked: the report quoting \<open>m\<close> is
  logged and the run ends with status 1. The source attaches no reason to the outcome;
  the rule that fires is identified by its flag.
\<close>

theorem trivial_phrase_blocks:
  assumes "getCommitMessage w = Inr m" and "getStagedChanges w = Inr d"
    and "p \<in> set trivialPatterns" and "toLowerCase m = pre @ p @ post"
  shows "isTrivialCommitMessage m \<and>
         main w = Exit 1 [TrivialMessageDetected m, ShouldBeInMeaningfulCommit,
                          PleaseUseAmend, KeepsHistoryClean]"
proof -
  from assms(3,4) have flag: "isTrivialCommitMessage m"
    unfolding isTrivialCommitMessage_iff by blast
  from assms(3) have "p \<noteq> []" by (rule trivialPatterns_nonempty)
  with assms(4) have "toLowerCase m \<noteq> []" by simp
  then have "m \<noteq> []" by (auto simp: toLowerCase_def)
  with flag assms(1,2) show ?thesis by (simp add: main_def)
qed

theorem trivial_phrase_blocks_witness:
  "isTrivialCommitMessage ''Fix Typo in README'' \<and>
   main (hookWorld (''  Fix Typo in README'' @ [CHR 0x0A])) =
     Exit 1 [TrivialMessageDetected ''Fix Typo in README'', ShouldBeInMeaningfulCommit,
             PleaseUseAmend, KeepsHistoryClean]"
proof -
  have m: "getCommitMessage (hookWorld (''  Fix Typo in README'' @ [CHR 0x0A])) =
           Inr ''Fix Typo in README''"
    by code_simp
  have d: "getStagedChanges (hookWorld (''  Fix Typo in README'' @ [CHR 0x0A])) = Inr []"
    by code_simp
  have p: "''fix typo'' \<in> set trivialPatterns"
    by (simp add: trivialPatterns_def)
  have l: "toLowerCase ''Fix Typo in README'' = [] @ ''fix typo'' @ '' in readme''"
    by code_simp
  show ?thesis by (rule trivial_phrase_blocks [OF m d p l])
qed

section \<open>The length rule\<close>




section \<open>No rule fires\<close>

text \<open>
  Claim C3. A commit message with none of the three flags (not too short, no trivial
  phrase in it, no trivial pattern matching it) is allowed: the confirmation line is logged
  and the run ends with status 0. The message
  \<open>Implement OAuth2 token refresh with retry and backoff\<close> is such a message.
\<close>

theorem no_rule_allows:
  assumes "getCommitMessage w = Inr m" and "getStagedChanges w = Inr d"
    and "\<not> isTooShort m" and "\<not> isTrivialCommitMessage m" and "\<not> matchesTrivialRegex m"
  shows "main w = Exit 0 [MessageOkProceeding]"
proof -
  from assms(3) have "m \<noteq> []" by (auto simp: isTooShort_def trim_Nil)
  with assms show ?thesis by (simp add: main_def)
qed

theorem no_rule_allows_witness:
  "main (hookWorld ''Implement OAuth2 token refresh with retry and backoff'') =
     Exit 0 [MessageOkProceeding]"
proof -
  let ?m = "''Implement OAuth2 token refresh with retry and backoff''"
  have m: "getCommitMessage (hookWorld ?m) = Inr ?m" by code_simp
  have d: "getStagedChanges (hookWorld ?m) = Inr []" by code_simp
  have a: "\<not> isTooShort ?m" by code_simp
  have b: "\<not> isTrivialCommitMessage ?m" by code_simp
  have c: "\<not> matchesTrivialRegex ?m" by code_simp
  show ?thesis by (rule no_rule_allows [OF m d a b c])
qed

section \<open>Searching with a pattern\<close>

text \<open>
  Every match lies inside the input. So the bounds that the definition of \<open>ends\<close> asks
  of an iteration of a quantifier cut nothing: what remains of them is the rule of
  \<open>RepeatMatcher\<close> that an iteration which is not required must consume something.
\<close>

lemma ends_bounds:
  "i \<le> length s \<Longrightarrow> e \<in> set (ends ic s r i) \<Longrightarrow> i \<le> e \<and> e \<le> length s"
proof (induction ic s r i arbitrary: e rule: ends.induct)
  case (6 ic s a b i)
  from 6(4) obtain j where j: "j \<in> set (ends ic s a i)" and e: "e \<in> set (ends ic s b j)"
    by auto
  from 6(1) [OF 6(3) j] have "i \<le> j" "j \<le> length s" by simp_all
  moreover from 6(2) [OF j \<open>j \<le> length s\<close> e] have "j \<le> e" "e \<le> length s" by simp_all
  ultimately show ?case by simp
next
  case (8 ic s mn mx r i)
  show ?case
  proof (cases "mx = Some 0")
    case True
    with 8(4) have "e = i" unfolding ends.simps(8) [of ic s mn mx r i] by simp
    with 8(3) show ?thesis by simp
  next
    case False
    with 8(4) consider "e = i"
      | j where "j \<in> set (ends ic s r i)" "(if mn = 0 then i < j else i \<le> j) \<and> j \<le> length s"
          "e \<in> set (ends ic s (Rep (mn - 1) (map_option (\<lambda>m. m - 1) mx) r) j)"
      unfolding ends.simps(8) [of ic s mn mx r i] by (auto split: if_splits)
    then show ?thesis
    proof cases
      case 1
      with 8(3) show ?thesis by simp
    next
      case 2
      from 2(2) have "i \<le> j" "j \<le> length s" by (auto split: if_splits)
      moreover from 8(2) [OF False 2(1) 2(2) \<open>j \<le> length s\<close> 2(3)]
      have "j \<le> e" "e \<le> length s" by simp_all
      ultimately show ?thesis by simp
    qed
  qed
qed (auto split: if_splits)

lemma ends_Rep_unguarded:
  assumes "i \<le> length s"
  shows "ends ic s (Rep mn mx r) i =
     (if mx = Some 0 then [i]
      else concat (map (\<lambda>j. if mn = 0 \<and> j = i then []
                             else ends ic s (Rep (mn - 1) (map_option (\<lambda>m. m - 1) mx) r) j)
                       (ends ic s r i))
           @ (if mn = 0 then [i] else []))"
proof -
  have "map (\<lambda>j. if (if mn = 0 then i < j else i \<le> j) \<and> j \<le> length s
                    then ends ic s (Rep (mn - 1) (map_option (\<lambda>m. m - 1) mx) r) j else [])
            (ends ic s r i) =
        map (\<lambda>j. if mn = 0 \<and> j = i then []
                  else ends ic s (Rep (mn - 1) (map_option (\<lambda>m. m - 1) mx) r) j)
            (ends ic s r i)"
  proof (intro map_cong refl)
    fix j assume "j \<in> set (ends ic s r i)"
    with assms have "i \<le> j \<and> j \<le> length s" by (rule ends_bounds)
    then show "(if (if mn = 0 then i < j else i \<le> j) \<and> j \<le> length s
                 then ends ic s (Rep (mn - 1) (map_option (\<lambda>m. m - 1) mx) r) j else []) =
               (if mn = 0 \<and> j = i then []
                 else ends ic s (Rep (mn - 1) (map_option (\<lambda>m. m - 1) mx) r) j)"
      by auto
  qed
  then show ?thesis unfolding ends.simps(8) [of ic s mn mx r i] by (simp only:)
qed

lemma regexpTest_not_global:
  "\<not> global R \<Longrightarrow> regexpTest R s = (searchFrom (ignoreCase R) s (source R) 0 \<noteq> None, R)"
  by (simp add: regexpTest_def split: option.splits)

lemma someTest_not_global:
  "list_all (\<lambda>R. \<not> global R) Rs \<Longrightarrow>
   someTest Rs s = (\<exists>R\<in>set Rs. searchFrom (ignoreCase R) s (source R) 0 \<noteq> None, Rs)"
  by (induction Rs) (auto simp: regexpTest_not_global split: bool.splits)

lemma searchFrom_iff:
  "searchFrom ic s r i \<noteq> None \<longleftrightarrow> (\<exists>j. i \<le> j \<and> j \<le> length s \<and> ends ic s r j \<noteq> [])"
proof (induction ic s r i rule: searchFrom.induct)
  case (1 ic s r i)
  show ?case
  proof (cases "length s < i")
    case True
    then show ?thesis by (subst searchFrom.simps) auto
  next
    case False
    show ?thesis
    proof (cases "ends ic s r i")
      case Nil
      with False 1 have "searchFrom ic s r (Suc i) \<noteq> None \<longleftrightarrow>
          (\<exists>j. Suc i \<le> j \<and> j \<le> length s \<and> ends ic s r j \<noteq> [])" by simp
      moreover have "searchFrom ic s r i = searchFrom ic s r (Suc i)"
        using False Nil by (subst searchFrom.simps) simp
      moreover have "(\<exists>j. i \<le> j \<and> j \<le> length s \<and> ends ic s r j \<noteq> []) \<longleftrightarrow>
          (\<exists>j. Suc i \<le> j \<and> j \<le> length s \<and> ends ic s r j \<noteq> [])"
        using Nil by (metis Suc_leI le_neq_implies_less Suc_leD)
      ultimately show ?thesis by simp
    next
      case (Cons e es)
      then have "searchFrom ic s r i \<noteq> None"
        using False by (subst searchFrom.simps) simp
      moreover have "\<exists>j. i \<le> j \<and> j \<le> length s \<and> ends ic s r j \<noteq> []"
        using False Cons by (intro exI [of _ i]) simp
      ultimately show ?thesis by simp
    qed
  qed
qed

lemma bolAnchored_start: "bolAnchored r \<Longrightarrow> e \<in> set (ends ic s r i) \<Longrightarrow> i = 0"
  by (induction r arbitrary: i e) (auto split: if_splits)

lemma eolAnchored_end: "eolAnchored r \<Longrightarrow> e \<in> set (ends ic s r i) \<Longrightarrow> e = length s"
  by (induction r arbitrary: i e) (auto split: if_splits)

lemma trivialRegexPatterns_not_global: "list_all (\<lambda>R. \<not> global R) trivialRegexPatterns"
  by (simp add: trivialRegexPatterns_def regexLiteral_def)

lemma trivialRegexPatterns_anchored:
  "list_all (\<lambda>R. bolAnchored (source R) \<and> eolAnchored (source R)) trivialRegexPatterns"
  by (simp add: trivialRegexPatterns_def regexLiteral_def)

lemma searchFrom_anchored:
  assumes "bolAnchored r" and "eolAnchored r"
  shows "searchFrom ic s r 0 \<noteq> None \<longleftrightarrow> length s \<in> set (ends ic s r 0)"
proof
  assume "searchFrom ic s r 0 \<noteq> None"
  then obtain j where j: "ends ic s r j \<noteq> []" unfolding searchFrom_iff by blast
  then obtain e where e: "e \<in> set (ends ic s r j)" by (cases "ends ic s r j") auto
  with assms have "j = 0" "e = length s"
    by (auto dest: bolAnchored_start eolAnchored_end)
  with e show "length s \<in> set (ends ic s r 0)" by simp
next
  assume "length s \<in> set (ends ic s r 0)"
  then have "ends ic s r 0 \<noteq> []" by auto
  then show "searchFrom ic s r 0 \<noteq> None" unfolding searchFrom_iff by blast
qed

lemma matchesTrivialRegex_iff:
  "matchesTrivialRegex m \<longleftrightarrow>
     (\<exists>R\<in>set trivialRegexPatterns.
        length (trim m) \<in> set (ends (ignoreCase R) (trim m) (source R) 0))"
proof -
  have "\<And>R. R \<in> set trivialRegexPatterns \<Longrightarrow> bolAnchored (source R) \<and> eolAnchored (source R)"
    using trivialRegexPatterns_anchored by (simp add: list_all_iff)
  then have "\<And>R. R \<in> set trivialRegexPatterns \<Longrightarrow>
      (searchFrom (ignoreCase R) (trim m) (source R) 0 \<noteq> None) =
      (length (trim m) \<in> set (ends (ignoreCase R) (trim m) (source R) 0))"
    by (simp only: searchFrom_anchored)
  then show ?thesis
    unfolding matchesTrivialRegex_def someTest_not_global [OF trivialRegexPatterns_not_global]
    by auto
qed

lemma someTest_state_independent:
  assumes "list_all2 sameButLastIndex Rs Rs'" and "list_all (\<lambda>R. \<not> global R) Rs"
  shows "someTest Rs' s = (fst (someTest Rs s), Rs')"
proof -
  from assms have ng: "list_all (\<lambda>R. \<not> global R) Rs'"
    by (induction rule: list_all2_induct) (auto simp: sameButLastIndex_def)
  from assms(1) have "(\<exists>R\<in>set Rs'. searchFrom (ignoreCase R) s (source R) 0 \<noteq> None) \<longleftrightarrow>
      (\<exists>R\<in>set Rs. searchFrom (ignoreCase R) s (source R) 0 \<noteq> None)"
    by (induction rule: list_all2_induct) (auto simp: sameButLastIndex_def)
  then show ?thesis
    by (simp add: someTest_not_global [OF ng] someTest_not_global [OF assms(2)])
qed

section \<open>Case\<close>

lemma of_char_less_256: "(of_char c :: nat) < 256"
  by (metis of_char_mod_256 mod_less_divisor zero_less_numeral)

lemma of_char_toLowerChar:
  "(of_char (toLowerChar c) :: nat) =
     (if (65 \<le> (of_char c :: nat) \<and> (of_char c :: nat) \<le> 90) \<or>
         (192 \<le> (of_char c :: nat) \<and> (of_char c :: nat) \<le> 222 \<and> (of_char c :: nat) \<noteq> 215)
      then of_char c + 32 else of_char c)"
  by (auto simp: toLowerChar_def Let_def of_char_of)

lemma lower_eq_nat:
  assumes "toLowerChar a = toLowerChar b"
  shows "(if (65 \<le> (of_char a :: nat) \<and> (of_char a :: nat) \<le> 90) \<or>
             (192 \<le> (of_char a :: nat) \<and> (of_char a :: nat) \<le> 222 \<and> (of_char a :: nat) \<noteq> 215)
          then of_char a + 32 else (of_char a :: nat)) =
         (if (65 \<le> (of_char b :: nat) \<and> (of_char b :: nat) \<le> 90) \<or>
             (192 \<le> (of_char b :: nat) \<and> (of_char b :: nat) \<le> 222 \<and> (of_char b :: nat) \<noteq> 215)
          then of_char b + 32 else (of_char b :: nat))"
proof -
  from assms have "(of_char (toLowerChar a) :: nat) = of_char (toLowerChar b)" by simp
  then show ?thesis by (simp only: of_char_toLowerChar)
qed

lemma lower_eq_cases:
  assumes "toLowerChar a = toLowerChar b"
  obtains "a = b"
  | "(65 \<le> (of_char a :: nat) \<and> (of_char a :: nat) \<le> 90) \<or>
     (192 \<le> (of_char a :: nat) \<and> (of_char a :: nat) \<le> 222 \<and> (of_char a :: nat) \<noteq> 215)"
    and "(of_char b :: nat) = of_char a + 32"
  | "(65 \<le> (of_char b :: nat) \<and> (of_char b :: nat) \<le> 90) \<or>
     (192 \<le> (of_char b :: nat) \<and> (of_char b :: nat) \<le> 222 \<and> (of_char b :: nat) \<noteq> 215)"
    and "(of_char a :: nat) = of_char b + 32"
proof -
  let ?up = "\<lambda>n::nat. (65 \<le> n \<and> n \<le> 90) \<or> (192 \<le> n \<and> n \<le> 222 \<and> n \<noteq> 215)"
  have e: "(if ?up (of_char a) then of_char a + 32 else (of_char a :: nat)) =
           (if ?up (of_char b) then of_char b + 32 else (of_char b :: nat))"
    using lower_eq_nat [OF assms] .
  show thesis
  proof (cases "?up (of_char a)")
    case ua: True
    show ?thesis
    proof (cases "?up (of_char b)")
      case True
      from e have "(of_char a :: nat) = of_char b"
        unfolding if_P [OF ua] if_P [OF True] by simp
      then have "a = b" by simp
      then show ?thesis by (rule that(1))
    next
      case False
      from e have "(of_char b :: nat) = of_char a + 32"
        unfolding if_P [OF ua] if_not_P [OF False] by simp
      with ua show ?thesis by (rule that(2))
    qed
  next
    case na: False
    show ?thesis
    proof (cases "?up (of_char b)")
      case True
      from e have "(of_char a :: nat) = of_char b + 32"
        unfolding if_not_P [OF na] if_P [OF True] by simp
      with True show ?thesis by (rule that(3))
    next
      case False
      from e have "(of_char a :: nat) = of_char b"
        unfolding if_not_P [OF na] if_not_P [OF False] by simp
      then have "a = b" by simp
      then show ?thesis by (rule that(1))
    qed
  qed
qed

lemma isWhiteSpace_lower_eq:
  assumes "toLowerChar a = toLowerChar b"
  shows "isWhiteSpace a = isWhiteSpace b"
  using assms
proof (cases rule: lower_eq_cases)
  case 1
  then show ?thesis by simp
next
  case 2
  then show ?thesis unfolding isWhiteSpace_def Let_def by arith
next
  case 3
  then show ?thesis unfolding isWhiteSpace_def Let_def by arith
qed


lemma isWordChar_lower_eq:
  assumes "toLowerChar a = toLowerChar b"
  shows "isWordChar a = isWordChar b"
  using assms
proof (cases rule: lower_eq_cases)
  case 1
  then show ?thesis by simp
next
  case 2
  then show ?thesis unfolding isWordChar_def Let_def by arith
next
  case 3
  then show ?thesis unfolding isWordChar_def Let_def by arith
qed

lemma isDigit_lower_eq:
  assumes "toLowerChar a = toLowerChar b"
  shows "isDigit a = isDigit b"
  using assms
proof (cases rule: lower_eq_cases)
  case 1
  then show ?thesis by simp
next
  case 2
  then show ?thesis unfolding isDigit_def Let_def by arith
next
  case 3
  then show ?thesis unfolding isDigit_def Let_def by arith
qed

lemma isLineTerminator_lower_eq:
  assumes "toLowerChar a = toLowerChar b"
  shows "isLineTerminator a = isLineTerminator b"
  using assms
proof (cases rule: lower_eq_cases)
  case 1
  then show ?thesis by simp
next
  case 2
  then show ?thesis unfolding isLineTerminator_def Let_def by arith
next
  case 3
  then show ?thesis unfolding isLineTerminator_def Let_def by arith
qed

lemma canonicalize_lower_eq:
  assumes "toLowerChar a = toLowerChar b"
  shows "canonicalize True a = canonicalize True b"
  using assms
proof (cases rule: lower_eq_cases)
  case 1
  then show ?thesis by simp
next
  case 2
  then show ?thesis unfolding canonicalize_def Let_def by (simp split: if_splits; arith)
next
  case 3
  then show ?thesis unfolding canonicalize_def Let_def by (simp split: if_splits; arith)
qed

lemma canonicalize_False: "canonicalize False c = of_char c"
  by (simp add: canonicalize_def)

lemma caseless_lower_eq:
  assumes "toLowerChar a = toLowerChar b" and "toLowerChar c = c" and "canonicalize True c = of_char c"
  shows "(canonicalize False a = canonicalize False c) = (canonicalize False b = canonicalize False c)"
  using assms(1)
proof (cases rule: lower_eq_cases)
  case 1
  then show ?thesis by simp
next
  case 2
  have "(of_char (toLowerChar c) :: nat) = of_char c" using assms(2) by simp
  then have nu: "\<not> ((65 \<le> (of_char c :: nat) \<and> (of_char c :: nat) \<le> 90) \<or>
     (192 \<le> (of_char c :: nat) \<and> (of_char c :: nat) \<le> 222 \<and> (of_char c :: nat) \<noteq> 215))"
    unfolding of_char_toLowerChar by (simp split: if_splits)
  have nl: "\<not> ((97 \<le> (of_char c :: nat) \<and> (of_char c :: nat) \<le> 122) \<or>
     (224 \<le> (of_char c :: nat) \<and> (of_char c :: nat) \<le> 254 \<and> (of_char c :: nat) \<noteq> 247))"
    using assms(3) unfolding canonicalize_def Let_def by (simp split: if_splits; arith)
  from 2 nu nl show ?thesis unfolding canonicalize_False by arith
next
  case 3
  have "(of_char (toLowerChar c) :: nat) = of_char c" using assms(2) by simp
  then have nu: "\<not> ((65 \<le> (of_char c :: nat) \<and> (of_char c :: nat) \<le> 90) \<or>
     (192 \<le> (of_char c :: nat) \<and> (of_char c :: nat) \<le> 222 \<and> (of_char c :: nat) \<noteq> 215))"
    unfolding of_char_toLowerChar by (simp split: if_splits)
  have nl: "\<not> ((97 \<le> (of_char c :: nat) \<and> (of_char c :: nat) \<le> 122) \<or>
     (224 \<le> (of_char c :: nat) \<and> (of_char c :: nat) \<le> 254 \<and> (of_char c :: nat) \<noteq> 247))"
    using assms(3) unfolding canonicalize_def Let_def by (simp split: if_splits; arith)
  from 3 nu nl show ?thesis unfolding canonicalize_False by arith
qed

lemma classMatch_lower_eq:
  assumes "toLowerChar a = toLowerChar b" and "caseBlind ic (Cls k)"
  shows "classMatch ic k a = classMatch ic k b"
proof (cases k)
  case (CharRange lo hi)
  with assms(2) have "ic" by simp
  with CharRange canonicalize_lower_eq [OF assms(1)] show ?thesis by simp
qed (simp_all add: isWhiteSpace_lower_eq [OF assms(1)] isWordChar_lower_eq [OF assms(1)]
       isDigit_lower_eq [OF assms(1)] isLineTerminator_lower_eq [OF assms(1)])

lemma ends_caseBlind:
  assumes "map toLowerChar s = map toLowerChar s'"
  shows "caseBlind ic r \<Longrightarrow> ends ic s r i = ends ic s' r i"
  using assms
proof (induction ic s r i rule: ends.induct)
  case (1 ic s i)
  show ?case by simp
next
  case (2 ic s c i)
  from 2(2) have len: "length s = length s'" by (rule map_eq_imp_length_eq)
  show ?case
  proof (cases "i < length s")
    case True
    with 2(2) have l: "toLowerChar (s ! i) = toLowerChar (s' ! i)"
      by (metis len nth_map)
    have "(canonicalize ic (s ! i) = canonicalize ic c) = (canonicalize ic (s' ! i) = canonicalize ic c)"
    proof (cases ic)
      case True
      with canonicalize_lower_eq [OF l] show ?thesis by simp
    next
      case False
      with 2(1) have "toLowerChar c = c" "canonicalize True c = of_char c" by simp_all
      with caseless_lower_eq [OF l] False show ?thesis by simp
    qed
    with len show ?thesis by simp
  next
    case False
    with len show ?thesis by simp
  qed
next
  case (3 ic s k i)
  from 3(2) have len: "length s = length s'" by (rule map_eq_imp_length_eq)
  show ?case
  proof (cases "i < length s")
    case True
    with 3(2) have l: "toLowerChar (s ! i) = toLowerChar (s' ! i)"
      by (metis len nth_map)
    from classMatch_lower_eq [OF l 3(1)] len show ?thesis by simp
  next
    case False
    with len show ?thesis by simp
  qed
next
  case (4 ic s i)
  show ?case by simp
next
  case (5 ic s i)
  from 5(2) have "length s = length s'" by (rule map_eq_imp_length_eq)
  then show ?case by simp
next
  case (6 ic s a b i)
  from 6(3) have ca: "caseBlind ic a" and cb: "caseBlind ic b" by simp_all
  have a: "ends ic s a i = ends ic s' a i" using 6(1) ca 6(4) by simp
  have m: "map (ends ic s b) (ends ic s a i) = map (ends ic s' b) (ends ic s a i)"
    using 6(2) cb 6(4) by (intro map_cong) auto
  show ?case by (simp only: ends.simps(6) a [symmetric] m)
next
  case (7 ic s a b i)
  then show ?case by simp
next
  case (8 ic s mn mx r i)
  from 8(4) have len: "length s = length s'" by (rule map_eq_imp_length_eq)
  from 8(3) have cr: "caseBlind ic r" by simp
  show ?case
  proof (cases "mx = Some 0")
    case True
    then show ?thesis
      unfolding ends.simps(8) [of ic s mn mx r i] ends.simps(8) [of ic s' mn mx r i] by simp
  next
    case False
    have a: "ends ic s r i = ends ic s' r i" using 8(1) [OF False cr 8(4)] .
    have mm: "map (\<lambda>j. if (if mn = 0 then i < j else i \<le> j) \<and> j \<le> length s
                      then ends ic s (Rep (mn - 1) (map_option (\<lambda>m. m - 1) mx) r) j else [])
              (ends ic s r i) =
          map (\<lambda>j. if (if mn = 0 then i < j else i \<le> j) \<and> j \<le> length s'
                      then ends ic s' (Rep (mn - 1) (map_option (\<lambda>m. m - 1) mx) r) j else [])
              (ends ic s r i)"
    proof (intro map_cong refl)
      fix j assume j: "j \<in> set (ends ic s r i)"
      show "(if (if mn = 0 then i < j else i \<le> j) \<and> j \<le> length s
              then ends ic s (Rep (mn - 1) (map_option (\<lambda>m. m - 1) mx) r) j else []) =
            (if (if mn = 0 then i < j else i \<le> j) \<and> j \<le> length s'
              then ends ic s' (Rep (mn - 1) (map_option (\<lambda>m. m - 1) mx) r) j else [])"
      proof (cases "(if mn = 0 then i < j else i \<le> j) \<and> j \<le> length s")
        case True
        have "caseBlind ic (Rep (mn - 1) (map_option (\<lambda>m. m - 1) mx) r)" using cr by simp
        from 8(2) [OF False j True this 8(4)] show ?thesis by (simp only: len)
      next
        case False
        with len show ?thesis by simp
      qed
    qed
    show ?thesis
      unfolding ends.simps(8) [of ic s mn mx r i] ends.simps(8) [of ic s' mn mx r i]
      by (simp only: a [symmetric] mm)
  qed
qed

lemma isWhiteSpace_toLowerChar: "isWhiteSpace (toLowerChar c) = isWhiteSpace c"
  unfolding isWhiteSpace_def Let_def of_char_toLowerChar by (simp split: if_splits; arith)

lemma dropWhile_isWhiteSpace_lower:
  "dropWhile isWhiteSpace (map toLowerChar xs) = map toLowerChar (dropWhile isWhiteSpace xs)"
  by (induction xs) (simp_all add: isWhiteSpace_toLowerChar)

lemma trim_toLowerCase: "trim (toLowerCase s) = toLowerCase (trim s)"
  by (simp add: trim_def toLowerCase_def dropWhile_isWhiteSpace_lower rev_map)

lemma trivialRegexPatterns_caseBlind:
  "list_all (\<lambda>R. caseBlind (ignoreCase R) (source R)) trivialRegexPatterns"
  by code_simp

lemma searchFrom_caseBlind:
  assumes "map toLowerChar s = map toLowerChar s'" and "caseBlind ic r"
  shows "(searchFrom ic s r 0 \<noteq> None) = (searchFrom ic s' r 0 \<noteq> None)"
proof -
  from assms(1) have "length s = length s'" by (rule map_eq_imp_length_eq)
  then show ?thesis unfolding searchFrom_iff by (simp add: ends_caseBlind [OF assms])
qed

lemma flags_case_insensitive:
  assumes "toLowerCase m = toLowerCase m'"
  shows "isTrivialCommitMessage m = isTrivialCommitMessage m'"
    and "matchesTrivialRegex m = matchesTrivialRegex m'"
    and "isTooShort m = isTooShort m'"
proof -
  show "isTrivialCommitMessage m = isTrivialCommitMessage m'"
    by (simp add: isTrivialCommitMessage_def assms)
  have t: "toLowerCase (trim m) = toLowerCase (trim m')"
    using assms by (simp add: trim_toLowerCase [symmetric])
  then have "length (toLowerCase (trim m)) = length (toLowerCase (trim m'))" by simp
  then show "isTooShort m = isTooShort m'" by (simp add: isTooShort_def toLowerCase_def)
  from t have t': "map toLowerChar (trim m) = map toLowerChar (trim m')"
    by (simp add: toLowerCase_def)
  have "\<And>R. R \<in> set trivialRegexPatterns \<Longrightarrow>
      (searchFrom (ignoreCase R) (trim m) (source R) 0 \<noteq> None) =
      (searchFrom (ignoreCase R) (trim m') (source R) 0 \<noteq> None)"
    using trivialRegexPatterns_caseBlind searchFrom_caseBlind [OF t']
    by (simp add: list_all_iff)
  then show "matchesTrivialRegex m = matchesTrivialRegex m'"
    unfolding matchesTrivialRegex_def someTest_not_global [OF trivialRegexPatterns_not_global]
    by auto
qed

section \<open>Case on wider code units\<close>

text \<open>On strings of code units \<open>0x00 .. 0xFF\<close> the wider functions are the narrow ones.\<close>

lemma toLowerCaseW_Latin: "toLowerCaseW (map Latin s) = map Latin (toLowerCase s)"
  by (induction s) (simp_all add: toLowerCaseW_def toLowerCase_def)

lemma dropWhile_isWhiteSpaceW_Latin:
  "dropWhile isWhiteSpaceW (map Latin s) = map Latin (dropWhile isWhiteSpace s)"
  by (induction s) simp_all

lemma trimW_Latin: "trimW (map Latin s) = map Latin (trim s)"
  by (simp add: trimW_def trim_def dropWhile_isWhiteSpaceW_Latin rev_map)

lemma startsWithW_Latin: "startsWithW (map Latin s) (map Latin p) = startsWith s p"
  by (induction s p rule: startsWith.induct) simp_all

lemma includesW_Latin: "includesW (map Latin s) (map Latin p) = includes_str s p"
proof (induction s)
  case Nil
  show ?case using startsWithW_Latin [of "[]" p] by simp
next
  case (Cons c s)
  then show ?case using startsWithW_Latin [of "c # s" p] by simp
qed

lemma classMatchW_Latin: "classMatchW ic k (Latin c) = classMatch ic k c"
  by (cases k) simp_all

lemma endsW_Latin: "endsW ic (map Latin s) r i = ends ic s r i"
proof (induction ic s r i rule: ends.induct)
  case (6 ic s a b i)
  have m: "map (endsW ic (map Latin s) b) (ends ic s a i) = map (ends ic s b) (ends ic s a i)"
    using 6(2) by (intro map_cong) auto
  show ?case by (simp only: endsW.simps(6) ends.simps(6) 6(1) m)
next
  case (8 ic s mn mx r i)
  show ?case
  proof (cases "mx = Some 0")
    case True
    then show ?thesis
      unfolding endsW.simps(8) [of ic "map Latin s" mn mx r i] ends.simps(8) [of ic s mn mx r i]
      by simp
  next
    case False
    have a: "endsW ic (map Latin s) r i = ends ic s r i" using 8(1) [OF False] .
    have mm: "map (\<lambda>j. if (if mn = 0 then i < j else i \<le> j) \<and> j \<le> length (map Latin s)
                      then endsW ic (map Latin s) (Rep (mn - 1) (map_option (\<lambda>m. m - 1) mx) r) j
                      else [])
              (ends ic s r i) =
          map (\<lambda>j. if (if mn = 0 then i < j else i \<le> j) \<and> j \<le> length s
                      then ends ic s (Rep (mn - 1) (map_option (\<lambda>m. m - 1) mx) r) j else [])
              (ends ic s r i)"
    proof (intro map_cong refl)
      fix j assume j: "j \<in> set (ends ic s r i)"
      show "(if (if mn = 0 then i < j else i \<le> j) \<and> j \<le> length (map Latin s)
              then endsW ic (map Latin s) (Rep (mn - 1) (map_option (\<lambda>m. m - 1) mx) r) j
              else []) =
            (if (if mn = 0 then i < j else i \<le> j) \<and> j \<le> length s
              then ends ic s (Rep (mn - 1) (map_option (\<lambda>m. m - 1) mx) r) j else [])"
      proof (cases "(if mn = 0 then i < j else i \<le> j) \<and> j \<le> length s")
        case True
        from 8(2) [OF False j True] show ?thesis by (simp only: length_map)
      next
        case False
        then show ?thesis by (simp only: length_map if_False)
      qed
    qed
    show ?thesis
      unfolding endsW.simps(8) [of ic "map Latin s" mn mx r i] ends.simps(8) [of ic s mn mx r i]
      by (simp only: a mm)
  qed
qed (simp_all add: classMatchW_Latin cong: conj_cong)

lemma searchFromW_Latin: "searchFromW ic (map Latin s) r i = searchFrom ic s r i"
proof (induction ic s r i rule: searchFrom.induct)
  case (1 ic s r i)
  show ?case
  proof (cases "length s < i")
    case True
    then show ?thesis
      by (subst searchFromW.simps, subst searchFrom.simps) simp
  next
    case False
    show ?thesis
    proof (cases "ends ic s r i")
      case Nil
      with False 1 have "searchFromW ic (map Latin s) r (Suc i) = searchFrom ic s r (Suc i)"
        by simp
      with False Nil show ?thesis
        by (subst searchFromW.simps, subst searchFrom.simps) (simp add: endsW_Latin)
    next
      case (Cons e es)
      with False show ?thesis
        by (subst searchFromW.simps, subst searchFrom.simps) (simp add: endsW_Latin)
    qed
  qed
qed

lemma regexpTestW_Latin: "regexpTestW R (map Latin s) = regexpTest R s"
  by (simp add: regexpTestW_def regexpTest_def searchFromW_Latin)

lemma someTestW_Latin: "someTestW Rs (map Latin s) = someTest Rs s"
  by (induction Rs) (simp_all add: regexpTestW_Latin split: prod.splits bool.splits)

lemma flags_Latin:
  "isTrivialCommitMessageW (map Latin m) = isTrivialCommitMessage m"
  "matchesTrivialRegexW (map Latin m) = matchesTrivialRegex m"
  "isTooShortW (map Latin m) = isTooShort m"
  by (simp_all add: isTrivialCommitMessageW_def isTrivialCommitMessage_def toLowerCaseW_Latin
      includesW_Latin matchesTrivialRegexW_def matchesTrivialRegex_def trimW_Latin someTestW_Latin
      isTooShortW_def isTooShort_def)

lemma startsWithW_iff: "startsWithW s p \<longleftrightarrow> (\<exists>post. s = p @ post)"
  by (induction s p rule: startsWithW.induct) auto

lemma includesW_iff: "includesW s p \<longleftrightarrow> (\<exists>pre post. s = pre @ p @ post)"
proof (induction s)
  case Nil
  show ?case by (simp add: startsWithW_iff)
next
  case (Cons c s)
  show ?case
  proof
    assume "includesW (c # s) p"
    then consider "startsWithW (c # s) p" | "includesW s p" by auto
    then show "\<exists>pre post. c # s = pre @ p @ post"
    proof cases
      case 1
      then obtain post where "c # s = p @ post" unfolding startsWithW_iff ..
      then have "c # s = [] @ p @ post" by simp
      then show ?thesis by blast
    next
      case 2
      with Cons.IH obtain pre post where "s = pre @ p @ post" by blast
      then have "c # s = (c # pre) @ p @ post" by simp
      then show ?thesis by blast
    qed
  next
    assume "\<exists>pre post. c # s = pre @ p @ post"
    then obtain pre post where e: "c # s = pre @ p @ post" by blast
    show "includesW (c # s) p"
    proof (cases pre)
      case Nil
      with e have "startsWithW (c # s) p" unfolding startsWithW_iff by auto
      then show ?thesis by simp
    next
      case (Cons x pre')
      with e have "s = pre' @ p @ post" by simp
      with Cons.IH have "includesW s p" by blast
      then show ?thesis by simp
    qed
  qed
qed

lemma isTrivialCommitMessageW_iff:
  "isTrivialCommitMessageW m \<longleftrightarrow>
     (\<exists>p\<in>set trivialPatterns. \<exists>pre post. toLowerCaseW m = pre @ map Latin p @ post)"
  by (simp add: isTrivialCommitMessageW_def some_iff includesW_iff toLowerCaseW_Latin
      trivialPatterns_lower_elem)

lemma regexpTestW_not_global:
  "\<not> global R \<Longrightarrow> regexpTestW R s = (searchFromW (ignoreCase R) s (source R) 0 \<noteq> None, R)"
  by (simp add: regexpTestW_def split: option.splits)

lemma someTestW_not_global:
  "list_all (\<lambda>R. \<not> global R) Rs \<Longrightarrow>
   someTestW Rs s = (\<exists>R\<in>set Rs. searchFromW (ignoreCase R) s (source R) 0 \<noteq> None, Rs)"
  by (induction Rs) (auto simp: regexpTestW_not_global split: bool.splits)

lemma searchFromW_iff:
  "searchFromW ic s r i \<noteq> None \<longleftrightarrow> (\<exists>j. i \<le> j \<and> j \<le> length s \<and> endsW ic s r j \<noteq> [])"
proof (induction ic s r i rule: searchFromW.induct)
  case (1 ic s r i)
  show ?case
  proof (cases "length s < i")
    case True
    then show ?thesis by (subst searchFromW.simps) auto
  next
    case False
    show ?thesis
    proof (cases "endsW ic s r i")
      case Nil
      with False 1 have "searchFromW ic s r (Suc i) \<noteq> None \<longleftrightarrow>
          (\<exists>j. Suc i \<le> j \<and> j \<le> length s \<and> endsW ic s r j \<noteq> [])" by simp
      moreover have "searchFromW ic s r i = searchFromW ic s r (Suc i)"
        using False Nil by (subst searchFromW.simps) simp
      moreover have "(\<exists>j. i \<le> j \<and> j \<le> length s \<and> endsW ic s r j \<noteq> []) \<longleftrightarrow>
          (\<exists>j. Suc i \<le> j \<and> j \<le> length s \<and> endsW ic s r j \<noteq> [])"
        using Nil by (metis Suc_leI le_neq_implies_less Suc_leD)
      ultimately show ?thesis by simp
    next
      case (Cons e es)
      then have "searchFromW ic s r i \<noteq> None"
        using False by (subst searchFromW.simps) simp
      moreover have "\<exists>j. i \<le> j \<and> j \<le> length s \<and> endsW ic s r j \<noteq> []"
        using False Cons by (intro exI [of _ i]) simp
      ultimately show ?thesis by simp
    qed
  qed
qed

lemma bolAnchored_startW: "bolAnchored r \<Longrightarrow> e \<in> set (endsW ic s r i) \<Longrightarrow> i = 0"
  by (induction r arbitrary: i e) (auto split: if_splits)

lemma eolAnchored_endW: "eolAnchored r \<Longrightarrow> e \<in> set (endsW ic s r i) \<Longrightarrow> e = length s"
  by (induction r arbitrary: i e) (auto split: if_splits)

lemma searchFromW_anchored:
  assumes "bolAnchored r" and "eolAnchored r"
  shows "searchFromW ic s r 0 \<noteq> None \<longleftrightarrow> length s \<in> set (endsW ic s r 0)"
proof
  assume "searchFromW ic s r 0 \<noteq> None"
  then obtain j where j: "endsW ic s r j \<noteq> []" unfolding searchFromW_iff by blast
  then obtain e where e: "e \<in> set (endsW ic s r j)" by (cases "endsW ic s r j") auto
  with assms have "j = 0" "e = length s"
    by (auto dest: bolAnchored_startW eolAnchored_endW)
  with e show "length s \<in> set (endsW ic s r 0)" by simp
next
  assume "length s \<in> set (endsW ic s r 0)"
  then have "endsW ic s r 0 \<noteq> []" by auto
  then show "searchFromW ic s r 0 \<noteq> None" unfolding searchFromW_iff by blast
qed

lemma matchesTrivialRegexW_iff:
  "matchesTrivialRegexW m \<longleftrightarrow>
     (\<exists>R\<in>set trivialRegexPatterns.
        length (trimW m) \<in> set (endsW (ignoreCase R) (trimW m) (source R) 0))"
proof -
  have "\<And>R. R \<in> set trivialRegexPatterns \<Longrightarrow> bolAnchored (source R) \<and> eolAnchored (source R)"
    using trivialRegexPatterns_anchored by (simp add: list_all_iff)
  then have "\<And>R. R \<in> set trivialRegexPatterns \<Longrightarrow>
      (searchFromW (ignoreCase R) (trimW m) (source R) 0 \<noteq> None) =
      (length (trimW m) \<in> set (endsW (ignoreCase R) (trimW m) (source R) 0))"
    by (simp only: searchFromW_anchored)
  then show ?thesis
    unfolding matchesTrivialRegexW_def someTestW_not_global [OF trivialRegexPatterns_not_global]
    by auto
qed

lemma flagsW_case_insensitive_Latin:
  assumes "toLowerCaseW (map Latin a) = toLowerCaseW (map Latin b)"
  shows "isTrivialCommitMessageW (map Latin a) = isTrivialCommitMessageW (map Latin b)"
    and "matchesTrivialRegexW (map Latin a) = matchesTrivialRegexW (map Latin b)"
    and "isTooShortW (map Latin a) = isTooShortW (map Latin b)"
proof -
  from assms have "map Latin (toLowerCase a) = map Latin (toLowerCase b)"
    by (simp only: toLowerCaseW_Latin)
  then have l: "toLowerCase a = toLowerCase b"
    by (simp add: inj_map_eq_map inj_def)
  show "isTrivialCommitMessageW (map Latin a) = isTrivialCommitMessageW (map Latin b)"
    and "matchesTrivialRegexW (map Latin a) = matchesTrivialRegexW (map Latin b)"
    and "isTooShortW (map Latin a) = isTooShortW (map Latin b)"
    unfolding flags_Latin by (rule flags_case_insensitive [OF l])+
qed

text \<open>
  Claim C4, as stated, fails: matching does not ignore case throughout. The message
  \<open>QUIC\<close> followed by the Kelvin sign has the lower-case form \<open>quick\<close>, but the pattern
  \<open>/^quick(\s+\w+)?$/i\<close> does not fold the Kelvin sign: the message \<open>quick\<close> has the flag
  of the pattern rule, the other message has none of the three flags. Likewise \<open>ab\<close>
  followed by \<open>U+0130\<close> and \<open>abi\<close> followed by \<open>U+0307\<close> have the same lower-case form, but
  only the first is too short.
\<close>

theorem case_folding_differs:
  "toLowerCaseW (map Latin ''QUIC'' @ [KelvinSign]) = toLowerCaseW (map Latin ''quick'') \<and>
   matchesTrivialRegexW (map Latin ''quick'') \<and>
   \<not> matchesTrivialRegexW (map Latin ''QUIC'' @ [KelvinSign]) \<and>
   \<not> isTrivialCommitMessageW (map Latin ''QUIC'' @ [KelvinSign]) \<and>
   \<not> isTooShortW (map Latin ''QUIC'' @ [KelvinSign]) \<and>
   toLowerCaseW (map Latin ''ab'' @ [CapitalIDotAbove]) =
     toLowerCaseW (map Latin ''abi'' @ [CombiningDotAbove]) \<and>
   isTooShortW (map Latin ''ab'' @ [CapitalIDotAbove]) \<and>
   \<not> isTooShortW (map Latin ''abi'' @ [CombiningDotAbove])"
  by code_simp

text \<open>
  Claim C4, amended. (1) On messages of code units \<open>0x00 .. 0xFF\<close> the flags are those of
  \<open>main\<close>, and matching ignores case: two such messages with the same lower-case form
  have the same three flags. (2) The substring rule is unanchored: its flag holds exactly
  when an entry of \<open>trivialPatterns\<close> occurs somewhere in the lower-cased message. (3) The
  pattern rule is anchored: its flag holds exactly when one of the patterns has a match
  from index 0 to the end of the trimmed message, and no pattern of
  \<open>trivialRegexPatterns\<close> has, in any string, a match that starts after index 0 or ends
  before the end of the string. (2) and (3) hold of every message, wide code units or not.
\<close>

theorem matching_discipline:
  "(isTrivialCommitMessageW (map Latin a) = isTrivialCommitMessage a \<and>
    matchesTrivialRegexW (map Latin a) = matchesTrivialRegex a \<and>
    isTooShortW (map Latin a) = isTooShort a) \<and>
   (toLowerCaseW (map Latin a) = toLowerCaseW (map Latin b) \<longrightarrow>
      isTrivialCommitMessageW (map Latin a) = isTrivialCommitMessageW (map Latin b) \<and>
      matchesTrivialRegexW (map Latin a) = matchesTrivialRegexW (map Latin b) \<and>
      isTooShortW (map Latin a) = isTooShortW (map Latin b)) \<and>
   (isTrivialCommitMessageW m \<longleftrightarrow>
      (\<exists>p\<in>set trivialPatterns. \<exists>pre post. toLowerCaseW m = pre @ map Latin p @ post)) \<and>
   (matchesTrivialRegexW m \<longleftrightarrow>
      (\<exists>R\<in>set trivialRegexPatterns.
         length (trimW m) \<in> set (endsW (ignoreCase R) (trimW m) (source R) 0))) \<and>
   (\<forall>R\<in>set trivialRegexPatterns. \<forall>i e.
      e \<in> set (endsW (ignoreCase R) s (source R) i) \<longrightarrow> i = 0 \<and> e = length s)"
proof (intro conjI impI ballI allI)
  show "isTrivialCommitMessageW (map Latin a) = isTrivialCommitMessage a"
    and "matchesTrivialRegexW (map Latin a) = matchesTrivialRegex a"
    and "isTooShortW (map Latin a) = isTooShort a"
    by (rule flags_Latin)+
next
  assume "toLowerCaseW (map Latin a) = toLowerCaseW (map Latin b)"
  then show "isTrivialCommitMessageW (map Latin a) = isTrivialCommitMessageW (map Latin b)"
    and "matchesTrivialRegexW (map Latin a) = matchesTrivialRegexW (map Latin b)"
    and "isTooShortW (map Latin a) = isTooShortW (map Latin b)"
    by (rule flagsW_case_insensitive_Latin)+
next
  show "isTrivialCommitMessageW m \<longleftrightarrow>
      (\<exists>p\<in>set trivialPatterns. \<exists>pre post. toLowerCaseW m = pre @ map Latin p @ post)"
    by (rule isTrivialCommitMessageW_iff)
next
  show "matchesTrivialRegexW m \<longleftrightarrow>
      (\<exists>R\<in>set trivialRegexPatterns.
         length (trimW m) \<in> set (endsW (ignoreCase R) (trimW m) (source R) 0))"
    by (rule matchesTrivialRegexW_iff)
next
  fix R i e
  assume "R \<in> set trivialRegexPatterns" and e: "e \<in> set (endsW (ignoreCase R) s (source R) i)"
  then have "bolAnchored (source R)" "eolAnchored (source R)"
    using trivialRegexPatterns_anchored by (simp_all add: list_all_iff)
  with e show "i = 0" "e = length s"
    by (auto dest: bolAnchored_startW eolAnchored_endW)
qed

theorem matching_discipline_witness:
  "toLowerCaseW (map Latin ''More STUFF'') = toLowerCaseW (map Latin ''more stuff'') \<and>
   isTrivialCommitMessageW (map Latin ''More STUFF'') =
     isTrivialCommitMessageW (map Latin ''more stuff'') \<and>
   matchesTrivialRegexW (map Latin ''More STUFF'') =
     matchesTrivialRegexW (map Latin ''more stuff'') \<and>
   isTooShortW (map Latin ''More STUFF'') = isTooShortW (map Latin ''more stuff'') \<and>
   regexLiteral (seqs [Bol, word ''stuff'', Eol]) True \<in> set trivialRegexPatterns \<and>
   5 \<in> set (endsW True (map Latin ''stuff'') (seqs [Bol, word ''stuff'', Eol]) 0) \<and>
   5 = length (map Latin ''stuff'')"
proof -
  let ?R = "regexLiteral (seqs [Bol, word ''stuff'', Eol]) True"
  note t = matching_discipline [of "''More STUFF''" "''more stuff''" _ "map Latin ''stuff''"]
  have l: "toLowerCaseW (map Latin ''More STUFF'') = toLowerCaseW (map Latin ''more stuff'')"
    by code_simp
  have R: "?R \<in> set trivialRegexPatterns" by (simp add: trivialRegexPatterns_def)
  have e: "5 \<in> set (endsW (ignoreCase ?R) (map Latin ''stuff'') (source ?R) 0)" by code_simp
  note a = t [THEN conjunct2, THEN conjunct1, THEN mp, OF l]
  note b = t [THEN conjunct2, THEN conjunct2, THEN conjunct2, THEN conjunct2, THEN bspec, OF R,
      THEN spec, THEN spec, THEN mp, OF e]
  have d: "5 \<in> set (endsW True (map Latin ''stuff'') (seqs [Bol, word ''stuff'', Eol]) 0)"
    using e by (simp only: regexLiteral_def regexp.simps)
  from a l R d b show ?thesis by simp
qed

section \<open>Determinism and side effects\<close>

text \<open>
  Claim C8. The outcome of either script is a function of the message and the diff it
  read: two runs that read the same message and the same diff end alike, whatever else
  differs in their worlds. The only mutable objects that the classification touches are
  the \<open>RegExp\<close> objects of \<open>trivialRegexPatterns\<close>; none is global, so whatever their
  \<open>lastIndex\<close> properties hold, \<open>some\<close> with \<open>test\<close> returns the flag
  \<open>matchesTrivialRegex\<close> and leaves every object as it was.
\<close>

theorem classification_pure:
  "(getCommitMessage w = getCommitMessage w' \<and> getStagedChanges w = getStagedChanges w' \<longrightarrow>
      main w = main w') \<and>
   (getLastCommitMessage w = getLastCommitMessage w' \<and> getStagedChanges w = getStagedChanges w' \<longrightarrow>
      main_cc w = main_cc w') \<and>
   (list_all2 sameButLastIndex trivialRegexPatterns Rs \<longrightarrow>
      someTest Rs (trim m) = (matchesTrivialRegex m, Rs))"
proof (intro conjI impI)
  assume "getCommitMessage w = getCommitMessage w' \<and> getStagedChanges w = getStagedChanges w'"
  then have "getCommitMessage w = getCommitMessage w'" "getStagedChanges w = getStagedChanges w'"
    by simp_all
  then show "main w = main w'" by (simp only: main_def)
next
  assume "getLastCommitMessage w = getLastCommitMessage w' \<and>
          getStagedChanges w = getStagedChanges w'"
  then have "getLastCommitMessage w = getLastCommitMessage w'"
    "getStagedChanges w = getStagedChanges w'"
    by simp_all
  then show "main_cc w = main_cc w'" by (simp only: main_cc_def)
next
  assume "list_all2 sameButLastIndex trivialRegexPatterns Rs"
  from someTest_state_independent [OF this trivialRegexPatterns_not_global]
  show "someTest Rs (trim m) = (matchesTrivialRegex m, Rs)"
    by (simp add: matchesTrivialRegex_def)
qed

theorem classification_pure_witness:
  "main (hookWorld ''refactor'') = main (hookWorld (''  refactor'' @ [CHR 0x0A])) \<and>
   main_cc emptyRepoWorld = main_cc (hookWorld ''refactor'') \<and>
   someTest (map (\<lambda>R. R\<lparr>lastIndex := 7\<rparr>) trivialRegexPatterns) (trim ''refactor'') =
     (matchesTrivialRegex ''refactor'', map (\<lambda>R. R\<lparr>lastIndex := 7\<rparr>) trivialRegexPatterns)"
proof -
  let ?Rs = "map (\<lambda>R. R\<lparr>lastIndex := 7\<rparr>) trivialRegexPatterns"
  note t = classification_pure [of "hookWorld ''refactor''" "hookWorld (''  refactor'' @ [CHR 0x0A])"
      ?Rs "''refactor''"]
  note u = classification_pure [of emptyRepoWorld "hookWorld ''refactor''" ?Rs "''refactor''"]
  have 1: "getCommitMessage (hookWorld ''refactor'') =
           getCommitMessage (hookWorld (''  refactor'' @ [CHR 0x0A])) \<and>
           getStagedChanges (hookWorld ''refactor'') =
           getStagedChanges (hookWorld (''  refactor'' @ [CHR 0x0A]))"
    by code_simp
  have 2: "getLastCommitMessage emptyRepoWorld = getLastCommitMessage (hookWorld ''refactor'') \<and>
           getStagedChanges emptyRepoWorld = getStagedChanges (hookWorld ''refactor'')"
    by code_simp
  have 3: "list_all2 sameButLastIndex trivialRegexPatterns ?Rs"
    by (simp add: list_all2_map2 sameButLastIndex_def list_all2_same)
  note a = t [THEN conjunct1, THEN mp, OF 1]
  note b = u [THEN conjunct2, THEN conjunct1, THEN mp, OF 2]
  note c = t [THEN conjunct2, THEN conjunct2, THEN mp, OF 3]
  from a b c show ?thesis by (intro conjI)
qed

section \<open>Failures\<close>

text \<open>
  Claim C5, as stated, fails: when \<open>git diff --cached\<close> fails, \<open>execSync\<close> throws,
  nothing catches the exception, and the run of the commit-message hook ends with an
  uncaught exception (status 1), although that hook never looks at the diff and the
  message is one it allows.
\<close>

theorem diff_failure_uncaught:
  "getCommitMessage (brokenDiffWorld ''Implement OAuth2 token refresh with retry and backoff'') =
     Inr ''Implement OAuth2 token refresh with retry and backoff'' \<and>
   main (brokenDiffWorld ''Implement OAuth2 token refresh with retry and backoff'') =
     Uncaught ExecSyncError \<and>
   exitStatus (main (brokenDiffWorld ''Implement OAuth2 token refresh with retry and backoff'')) = 1"
  by code_simp

text \<open>
  Claim C5, amended. When no message is available and the staged diff is read, the run
  ends with status 0 and logs nothing. \<open>process.exit(1)\<close> is reached only as a
  classification outcome: in the commit-message hook when the message has one of the three
  flags, in \<open>check-commit.js\<close> when the message has a trivial phrase and the diff is
  trivial. A failure of a \<open>git\<close> command is not caught by either script: the exception
  of \<open>execSync\<close> leaves \<open>main\<close> uncaught.
\<close>

theorem failure_handling:
  "(getCommitMessage w = Inr [] \<and> getStagedChanges w = Inr d \<longrightarrow> main w = Exit 0 []) \<and>
   (main w = Exit 1 out \<longrightarrow>
      (\<exists>m. getCommitMessage w = Inr m \<and> m \<noteq> [] \<and>
           (isTrivialCommitMessage m \<or> matchesTrivialRegex m \<or> isTooShort m))) \<and>
   (main_cc w = Exit 1 out \<longrightarrow>
      (\<exists>m d. getLastCommitMessage w = Inr m \<and> getStagedChanges w = Inr d \<and>
             isTrivialCommitMessage_cc m \<and> isTrivialChange d)) \<and>
   (getCommitMessage w = Inr m' \<and> gitDiffCached w = Inl e \<longrightarrow> main w = Uncaught e) \<and>
   (gitLogLast w = Inl e \<longrightarrow> main_cc w = Uncaught e)"
proof (intro conjI impI)
  assume "getCommitMessage w = Inr [] \<and> getStagedChanges w = Inr d"
  then show "main w = Exit 0 []" by (simp add: main_def)
next
  assume "main w = Exit 1 out"
  then show "\<exists>m. getCommitMessage w = Inr m \<and> m \<noteq> [] \<and>
           (isTrivialCommitMessage m \<or> matchesTrivialRegex m \<or> isTooShort m)"
    by (auto simp: main_def split: sum.splits if_splits)
next
  assume "main_cc w = Exit 1 out"
  then show "\<exists>m d. getLastCommitMessage w = Inr m \<and> getStagedChanges w = Inr d \<and>
             isTrivialCommitMessage_cc m \<and> isTrivialChange d"
    by (auto simp: main_cc_def split: sum.splits if_splits)
next
  assume "getCommitMessage w = Inr m' \<and> gitDiffCached w = Inl e"
  then show "main w = Uncaught e" by (simp add: main_def getStagedChanges_def)
next
  assume "gitLogLast w = Inl e"
  then show "main_cc w = Uncaught e" by (simp add: main_cc_def getLastCommitMessage_def)
qed

theorem failure_handling_witness:
  "main emptyRepoWorld = Exit 0 [] \<and>
   (\<exists>m. getCommitMessage (hookWorld ''wip'') = Inr m \<and> m \<noteq> [] \<and>
        (isTrivialCommitMessage m \<or> matchesTrivialRegex m \<or> isTooShort m)) \<and>
   (\<exists>m d. getLastCommitMessage (repoWorld ''fix typo'' ''a  b'') = Inr m \<and>
          getStagedChanges (repoWorld ''fix typo'' ''a  b'') = Inr d \<and>
          isTrivialCommitMessage_cc m \<and> isTrivialChange d) \<and>
   main (brokenDiffWorld ''wip'') = Uncaught ExecSyncError \<and>
   main_cc emptyRepoWorld = Uncaught ExecSyncError"
proof -
  let ?out = "[TrivialMessageDetected ''wip'', ShouldBeInMeaningfulCommit, PleaseUseAmend,
               KeepsHistoryClean]"
  have 1: "getCommitMessage emptyRepoWorld = Inr [] \<and> getStagedChanges emptyRepoWorld = Inr []"
    by code_simp
  have 2: "main (hookWorld ''wip'') = Exit 1 ?out" by code_simp
  have 3: "main_cc (repoWorld ''fix typo'' ''a  b'') =
           Exit 1 [TrivialChangesError, PleaseUseAmendPrevious]" by code_simp
  have 4: "getCommitMessage (brokenDiffWorld ''wip'') = Inr ''wip'' \<and>
           gitDiffCached (brokenDiffWorld ''wip'') = Inl ExecSyncError" by code_simp
  have 5: "gitLogLast emptyRepoWorld = Inl ExecSyncError" by code_simp
  note a = failure_handling [of emptyRepoWorld "[]", THEN conjunct1, THEN mp, OF 1]
  note b = failure_handling [of "hookWorld ''wip''" _ ?out,
      THEN conjunct2, THEN conjunct1, THEN mp, OF 2]
  note c = failure_handling [of "repoWorld ''fix typo'' ''a  b''" _
      "[TrivialChangesError, PleaseUseAmendPrevious]",
      THEN conjunct2, THEN conjunct2, THEN conjunct1, THEN mp, OF 3]
  note d = failure_handling [of "brokenDiffWorld ''wip''" _ _ "''wip''" ExecSyncError,
      THEN conjunct2, THEN conjunct2, THEN conjunct2, THEN conjunct1, THEN mp, OF 4]
  note e = failure_handling [of emptyRepoWorld _ _ _ ExecSyncError,
      THEN conjunct2, THEN conjunct2, THEN conjunct2, THEN conjunct2, THEN mp, OF 5]
  from a b c d e show ?thesis by (intro conjI)
qed

text \<open>
  Claim C6, as stated, fails: \<open>check-commit.js\<close>, the script that reads the most recent
  commit message, runs \<open>git log -1\<close> through \<open>execSync\<close> without a handler; in a
  repository with no commit the command fails and the run ends with an uncaught exception.
\<close>

theorem no_commits_uncaught:
  "main_cc emptyRepoWorld = Uncaught ExecSyncError \<and> exitStatus (main_cc emptyRepoWorld) = 1"
  by code_simp

text \<open>
  Claim C6, amended. Without a path argument the commit-message hook takes the message to
  be empty, without a look at the history; when the staged diff is read, the run ends with
  status 0 and logs nothing. In \<open>check-commit.js\<close> a failure of \<open>git log -1\<close> is not
  tolerated: the exception is uncaught.
\<close>

theorem fallback_without_argument:
  "(argv2 w = None \<and> getStagedChanges w = Inr d \<longrightarrow>
      getCommitMessage w = Inr [] \<and> main w = Exit 0 []) \<and>
   (gitLogLast w = Inl e \<longrightarrow> main_cc w = Uncaught e)"
  by (simp add: main_def getCommitMessage_def main_cc_def getLastCommitMessage_def)

theorem fallback_without_argument_witness:
  "getCommitMessage emptyRepoWorld = Inr [] \<and> main emptyRepoWorld = Exit 0 [] \<and>
   main_cc emptyRepoWorld = Uncaught ExecSyncError"
proof -
  have 1: "argv2 emptyRepoWorld = None \<and> getStagedChanges emptyRepoWorld = Inr []"
    by code_simp
  have 2: "gitLogLast emptyRepoWorld = Inl ExecSyncError" by code_simp
  note a = fallback_without_argument [of emptyRepoWorld "[]", THEN conjunct1, THEN mp, OF 1]
  note b = fallback_without_argument [of emptyRepoWorld _ ExecSyncError, THEN conjunct2, THEN mp, OF 2]
  from a b show ?thesis by simp
qed

text \<open>
  Claim C10, as stated, fails: \<open>main\<close> reads the staged diff before it looks at the
  message, so with a path that names no file and a failing \<open>git diff --cached\<close> the run
  ends with an uncaught exception, not with status 0.
\<close>

theorem missing_file_diff_failure:
  "argv2 (missingFileWorld (Inl ExecSyncError)) = Some ''.git/COMMIT_EDITMSG'' \<and>
   \<not> existsSync (missingFileWorld (Inl ExecSyncError)) ''.git/COMMIT_EDITMSG'' \<and>
   main (missingFileWorld (Inl ExecSyncError)) = Uncaught ExecSyncError"
  by code_simp

text \<open>
  Claim C10, amended. When the path argument names a file that does not exist, the message
  is empty and no rule is looked at: the run ends as it does for an empty message file,
  which is with status 0 and no output when the staged diff is read, and with the uncaught
  exception of \<open>execSync\<close> when \<open>git diff --cached\<close> fails.
\<close>

theorem missing_file_skips:
  assumes "argv2 w = Some p" and "\<not> existsSync w p"
  shows "getCommitMessage w = Inr [] \<and>
         main w = (case getStagedChanges w of Inl e \<Rightarrow> Uncaught e | Inr d \<Rightarrow> Exit 0 []) \<and>
         main w = main (w\<lparr>existsSync := (\<lambda>q. True), readFileSync := (\<lambda>q. Inr [])\<rparr>)"
proof -
  from assms have m: "getCommitMessage w = Inr []" by (simp add: getCommitMessage_def)
  have m': "getCommitMessage (w\<lparr>existsSync := (\<lambda>q. True), readFileSync := (\<lambda>q. Inr [])\<rparr>) = Inr []"
    using assms(1) by (simp add: getCommitMessage_def trim_Nil)
  have d: "getStagedChanges (w\<lparr>existsSync := (\<lambda>q. True), readFileSync := (\<lambda>q. Inr [])\<rparr>) =
           getStagedChanges w"
    by (simp add: getStagedChanges_def)
  show ?thesis by (simp add: main_def m m' d split: sum.splits)
qed

theorem missing_file_skips_witness:
  "getCommitMessage (missingFileWorld (Inr [])) = Inr [] \<and>
   main (missingFileWorld (Inr [])) = Exit 0 []"
proof -
  have 1: "argv2 (missingFileWorld (Inr [])) = Some ''.git/COMMIT_EDITMSG''" by code_simp
  have 2: "\<not> existsSync (missingFileWorld (Inr [])) ''.git/COMMIT_EDITMSG''" by code_simp
  have 3: "getStagedChanges (missingFileWorld (Inr [])) = Inr []" by code_simp
  from missing_file_skips [OF 1 2] show ?thesis by (simp add: 3)
qed

section \<open>The pattern of \<open>isTrivialChange\<close>\<close>

lemma hasWhitespaceRun_iff:
  "hasWhitespaceRun d \<longleftrightarrow>
     (\<exists>i. Suc i < length d \<and> isWhiteSpace (d ! i) \<and> isWhiteSpace (d ! Suc i))"
proof (induction d rule: hasWhitespaceRun.induct)
  case (1 a b cs)
  show ?case
  proof
    assume "hasWhitespaceRun (a # b # cs)"
    then consider "isWhiteSpace a \<and> isWhiteSpace b" | "hasWhitespaceRun (b # cs)" by auto
    then show "\<exists>i. Suc i < length (a # b # cs) \<and> isWhiteSpace ((a # b # cs) ! i) \<and>
                   isWhiteSpace ((a # b # cs) ! Suc i)"
    proof cases
      case 1
      then show ?thesis by (intro exI [of _ 0]) simp
    next
      case 2
      with "1.IH" obtain i where "Suc i < length (b # cs)" "isWhiteSpace ((b # cs) ! i)"
        "isWhiteSpace ((b # cs) ! Suc i)" by blast
      then show ?thesis by (intro exI [of _ "Suc i"]) simp
    qed
  next
    assume "\<exists>i. Suc i < length (a # b # cs) \<and> isWhiteSpace ((a # b # cs) ! i) \<and>
                isWhiteSpace ((a # b # cs) ! Suc i)"
    then obtain i where i: "Suc i < length (a # b # cs)" "isWhiteSpace ((a # b # cs) ! i)"
      "isWhiteSpace ((a # b # cs) ! Suc i)" by blast
    show "hasWhitespaceRun (a # b # cs)"
    proof (cases i)
      case 0
      with i show ?thesis by simp
    next
      case (Suc k)
      with i have "Suc k < length (b # cs)" "isWhiteSpace ((b # cs) ! k)"
        "isWhiteSpace ((b # cs) ! Suc k)" by simp_all
      with "1.IH" have "hasWhitespaceRun (b # cs)" by blast
      then show ?thesis by simp
    qed
  qed
qed simp_all

lemma ends_Rep_0_nonempty: "ends ic s (Rep 0 mx r) j \<noteq> []"
  by (simp add: ends.simps(8) [of ic s 0 mx r j])

lemma ends_Cls:
  "ends ic s (Cls k) i = (if i < length s \<and> classMatch ic k (s ! i) then [Suc i] else [])"
  by simp

lemma ends_whitespaceRun:
  "ends ic s whitespaceRun i \<noteq> [] \<longleftrightarrow>
     Suc i < length s \<and> isWhiteSpace (s ! i) \<and> isWhiteSpace (s ! Suc i)"
proof -
  let ?C = "Cls Whitespace"
  have 1: "ends ic s (Rep 1 None ?C) j \<noteq> [] \<longleftrightarrow> j < length s \<and> isWhiteSpace (s ! j)" for j
    unfolding ends.simps(8) [of ic s 1 None ?C j] by (simp add: ends_Rep_0_nonempty)
  have 2: "ends ic s (Rep 2 None ?C) i \<noteq> [] \<longleftrightarrow>
        i < length s \<and> isWhiteSpace (s ! i) \<and> ends ic s (Rep 1 None ?C) (Suc i) \<noteq> []"
    unfolding ends.simps(8) [of ic s 2 None ?C i] by simp
  have "(Suc i < length s \<and> isWhiteSpace (s ! i) \<and> isWhiteSpace (s ! Suc i)) =
        (i < length s \<and> isWhiteSpace (s ! i) \<and> Suc i < length s \<and> isWhiteSpace (s ! Suc i))"
    by auto
  then show ?thesis by (simp only: whitespaceRun_def 2 1)
qed

lemma ends_Star_Cls:
  "i \<le> length s \<Longrightarrow>
   set (ends ic s (Rep 0 None (Cls k)) i) =
     {j. i \<le> j \<and> j \<le> length s \<and> (\<forall>t. i \<le> t \<and> t < j \<longrightarrow> classMatch ic k (s ! t))}"
proof (induction "length s - i" arbitrary: i)
  case 0
  then have i: "i = length s" by simp
  have "ends ic s (Rep 0 None (Cls k)) i = [i]"
    unfolding ends.simps(8) [of ic s 0 None "Cls k" i] by (simp add: i)
  moreover have "{j. i \<le> j \<and> j \<le> length s \<and>
      (\<forall>t. i \<le> t \<and> t < j \<longrightarrow> classMatch ic k (s ! t))} = {i}"
  proof (intro set_eqI iffI)
    fix j assume "j \<in> {j. i \<le> j \<and> j \<le> length s \<and>
      (\<forall>t. i \<le> t \<and> t < j \<longrightarrow> classMatch ic k (s ! t))}"
    with i have "j = i" by simp
    then show "j \<in> {i}" by simp
  next
    fix j assume "j \<in> {i}"
    with i show "j \<in> {j. i \<le> j \<and> j \<le> length s \<and>
      (\<forall>t. i \<le> t \<and> t < j \<longrightarrow> classMatch ic k (s ! t))}" by auto
  qed
  ultimately show ?case by simp
next
  case (Suc n)
  then have lt: "i < length s" by simp
  show ?case
  proof (cases "classMatch ic k (s ! i)")
    case True
    have "ends ic s (Rep 0 None (Cls k)) i = ends ic s (Rep 0 None (Cls k)) (Suc i) @ [i]"
      unfolding ends.simps(8) [of ic s 0 None "Cls k" i] using lt True by simp
    moreover have "set (ends ic s (Rep 0 None (Cls k)) (Suc i)) =
        {j. Suc i \<le> j \<and> j \<le> length s \<and>
            (\<forall>t. Suc i \<le> t \<and> t < j \<longrightarrow> classMatch ic k (s ! t))}"
      using Suc(2) lt by (intro Suc(1)) simp_all
    moreover have "{j. Suc i \<le> j \<and> j \<le> length s \<and>
            (\<forall>t. Suc i \<le> t \<and> t < j \<longrightarrow> classMatch ic k (s ! t))} \<union> {i} =
        {j. i \<le> j \<and> j \<le> length s \<and> (\<forall>t. i \<le> t \<and> t < j \<longrightarrow> classMatch ic k (s ! t))}"
    proof (intro set_eqI iffI)
      fix j assume "j \<in> {j. Suc i \<le> j \<and> j \<le> length s \<and>
            (\<forall>t. Suc i \<le> t \<and> t < j \<longrightarrow> classMatch ic k (s ! t))} \<union> {i}"
      then consider "j = i" | "Suc i \<le> j" "j \<le> length s"
        "\<forall>t. Suc i \<le> t \<and> t < j \<longrightarrow> classMatch ic k (s ! t)" by blast
      then show "j \<in> {j. i \<le> j \<and> j \<le> length s \<and>
          (\<forall>t. i \<le> t \<and> t < j \<longrightarrow> classMatch ic k (s ! t))}"
      proof cases
        case 1
        with lt show ?thesis by auto
      next
        case 2
        have "classMatch ic k (s ! t)" if "i \<le> t" "t < j" for t
        proof (cases "t = i")
          case True
          with \<open>classMatch ic k (s ! i)\<close> show ?thesis by simp
        next
          case False
          with that have "Suc i \<le> t" by simp
          with 2(3) that show ?thesis by blast
        qed
        with 2 show ?thesis by simp
      qed
    next
      fix j assume j: "j \<in> {j. i \<le> j \<and> j \<le> length s \<and>
          (\<forall>t. i \<le> t \<and> t < j \<longrightarrow> classMatch ic k (s ! t))}"
      show "j \<in> {j. Suc i \<le> j \<and> j \<le> length s \<and>
            (\<forall>t. Suc i \<le> t \<and> t < j \<longrightarrow> classMatch ic k (s ! t))} \<union> {i}"
      proof (cases "j = i")
        case True
        then show ?thesis by simp
      next
        case False
        with j have "Suc i \<le> j" by simp
        moreover from j have "classMatch ic k (s ! t)" if "Suc i \<le> t" "t < j" for t
          using that by simp
        ultimately show ?thesis using j by simp
      qed
    qed
    ultimately show ?thesis by simp
  next
    case False
    have "ends ic s (Rep 0 None (Cls k)) i = [i]"
      unfolding ends.simps(8) [of ic s 0 None "Cls k" i] using False by simp
    moreover have "{j. i \<le> j \<and> j \<le> length s \<and>
        (\<forall>t. i \<le> t \<and> t < j \<longrightarrow> classMatch ic k (s ! t))} = {i}"
    proof (intro set_eqI iffI)
      fix j assume j: "j \<in> {j. i \<le> j \<and> j \<le> length s \<and>
        (\<forall>t. i \<le> t \<and> t < j \<longrightarrow> classMatch ic k (s ! t))}"
      have "j = i"
      proof (rule ccontr)
        assume "j \<noteq> i"
        with j have "i < j" by simp
        with j have "classMatch ic k (s ! i)" by simp
        with False show False ..
      qed
      then show "j \<in> {i}" by simp
    next
      fix j assume "j \<in> {i}"
      with lt show "j \<in> {j. i \<le> j \<and> j \<le> length s \<and>
        (\<forall>t. i \<le> t \<and> t < j \<longrightarrow> classMatch ic k (s ! t))}" by auto
    qed
    ultimately show ?thesis by simp
  qed
qed

lemma canonicalize_False_eq: "(canonicalize False a = canonicalize False c) = (a = c)"
  by (simp add: canonicalize_False)

lemma take_Suc_drop_eq_Cons:
  "take (Suc n) (drop k s) = c # w \<longleftrightarrow> k < length s \<and> s ! k = c \<and> take n (drop (Suc k) s) = w"
proof (cases "k < length s")
  case True
  then have "drop k s = s ! k # drop (Suc k) s" by (simp add: Cons_nth_drop_Suc)
  with True show ?thesis by simp
next
  case False
  then show ?thesis by simp
qed

lemma ends_word_False:
  "ends False s (word w) k = (if take (length w) (drop k s) = w then [k + length w] else [])"
proof (induction w arbitrary: k rule: induct_list012)
  case 1
  show ?case by (simp add: word_def)
next
  case (2 c)
  have "take (Suc 0) (drop k s) = [c] \<longleftrightarrow> k < length s \<and> s ! k = c"
    using take_Suc_drop_eq_Cons [of 0 k s c "[]"] by simp
  then show ?case by (simp add: word_def canonicalize_False_eq)
next
  case (3 c c' cs)
  have w: "word (c # c' # cs) = Seq (Chr c) (word (c' # cs))" by (simp add: word_def)
  have "take (length (c # c' # cs)) (drop k s) = c # c' # cs \<longleftrightarrow>
        k < length s \<and> s ! k = c \<and> take (length (c' # cs)) (drop (Suc k) s) = c' # cs"
    using take_Suc_drop_eq_Cons [of "length (c' # cs)" k s c "c' # cs"] by simp
  then show ?case
    unfolding w by (simp add: canonicalize_False_eq "3.IH"(2) del: take_Suc_Cons)
qed

lemma ends_word_end:
  assumes "k \<le> length s"
  shows "length s \<in> set (ends False s (word w) k) \<longleftrightarrow> drop k s = w"
proof -
  have "take (length w) (drop k s) = w \<and> k + length w = length s \<longleftrightarrow> drop k s = w"
  proof
    assume a: "take (length w) (drop k s) = w \<and> k + length w = length s"
    then have "k + length w = length s" by simp
    then have "length (drop k s) = length w" by simp
    with a show "drop k s = w" by simp
  next
    assume "drop k s = w"
    then have "length w = length s - k" by auto
    with assms \<open>drop k s = w\<close> show "take (length w) (drop k s) = w \<and> k + length w = length s"
      by simp
  qed
  then show ?thesis by (auto simp: ends_word_False)
qed

lemma ends_Seq_Eol: "ends ic s (Seq a Eol) k \<noteq> [] \<longleftrightarrow> length s \<in> set (ends ic s a k)"
  by auto

lemma docTail_match:
  "ends False d (seqs [Chr CHR ''.'', alts [word ''md'', word ''txt'', word ''rst''], Eol]) j \<noteq> [] \<longleftrightarrow>
     j < length d \<and> d ! j = CHR ''.'' \<and> drop (Suc j) d \<in> {''md'', ''txt'', ''rst''}"
proof (cases "j < length d \<and> d ! j = CHR ''.''")
  case True
  then have k: "Suc j \<le> length d" by simp
  have "ends False d (seqs [Chr CHR ''.'', alts [word ''md'', word ''txt'', word ''rst''], Eol]) j =
        ends False d (Seq (alts [word ''md'', word ''txt'', word ''rst'']) Eol) (Suc j)"
    using True by (simp add: canonicalize_False_eq)
  moreover have "length d \<in> set (ends False d (alts [word ''md'', word ''txt'', word ''rst'']) (Suc j)) \<longleftrightarrow>
      drop (Suc j) d \<in> {''md'', ''txt'', ''rst''}"
    by (simp add: ends_word_end [OF k])
  ultimately show ?thesis using True by (simp only: ends_Seq_Eol simp_thms)
next
  case False
  then show ?thesis by (auto simp: canonicalize_False_eq)
qed

lemma docAddition_match:
  "ends False d docAddition i \<noteq> [] \<longleftrightarrow>
     i = 0 \<and> d \<noteq> [] \<and> d ! 0 = CHR ''+'' \<and>
     (\<exists>j. 1 \<le> j \<and> j < length d \<and> (\<forall>t. 1 \<le> t \<and> t < j \<longrightarrow> \<not> isLineTerminator (d ! t)) \<and>
          d ! j = CHR ''.'' \<and> drop (Suc j) d \<in> {''md'', ''txt'', ''rst''})"
proof (cases "i = 0 \<and> d \<noteq> [] \<and> d ! 0 = CHR ''+''")
  case True
  let ?tail = "seqs [Chr CHR ''.'', alts [word ''md'', word ''txt'', word ''rst''], Eol]"
  from True have l: "1 \<le> length d" by (cases d) simp_all
  have "ends False d docAddition i =
        concat (map (ends False d ?tail) (ends False d (Star (Cls AnyChar)) 1))"
    using True by (simp add: docAddition_def canonicalize_False_eq)
  then have "ends False d docAddition i \<noteq> [] \<longleftrightarrow>
      (\<exists>j\<in>set (ends False d (Star (Cls AnyChar)) 1). ends False d ?tail j \<noteq> [])"
    by simp
  also have "\<dots> \<longleftrightarrow> (\<exists>j. 1 \<le> j \<and> j \<le> length d \<and>
      (\<forall>t. 1 \<le> t \<and> t < j \<longrightarrow> \<not> isLineTerminator (d ! t)) \<and>
      j < length d \<and> d ! j = CHR ''.'' \<and> drop (Suc j) d \<in> {''md'', ''txt'', ''rst''})"
    unfolding ends_Star_Cls [OF l] docTail_match by auto
  finally show ?thesis using True by auto
next
  case False
  have "ends False d docAddition i = []"
    using False by (auto simp: docAddition_def canonicalize_False_eq)
  with False show ?thesis by auto
qed

lemma endsWith_iff: "endsWith s p \<longleftrightarrow> (\<exists>pre. s = pre @ p)"
proof -
  have "(\<exists>post. rev s = rev p @ post) \<longleftrightarrow> (\<exists>pre. s = pre @ p)"
  proof
    assume "\<exists>post. rev s = rev p @ post"
    then obtain post where "rev s = rev p @ post" ..
    then have "rev (rev s) = rev (rev p @ post)" by simp
    then have "s = rev post @ p" by simp
    then show "\<exists>pre. s = pre @ p" ..
  next
    assume "\<exists>pre. s = pre @ p"
    then obtain pre where "s = pre @ p" ..
    then have "rev s = rev p @ rev pre" by simp
    then show "\<exists>post. rev s = rev p @ post" ..
  qed
  then show ?thesis by (simp add: endsWith_def startsWith_iff)
qed

lemma docAddition_decomposition:
  "(d \<noteq> [] \<and> d ! 0 = CHR ''+'' \<and>
     (\<exists>j. 1 \<le> j \<and> j < length d \<and> (\<forall>t. 1 \<le> t \<and> t < j \<longrightarrow> \<not> isLineTerminator (d ! t)) \<and>
          d ! j = CHR ''.'' \<and> drop (Suc j) d \<in> {''md'', ''txt'', ''rst''})) \<longleftrightarrow>
   (\<exists>body ext. d = CHR ''+'' # body @ CHR ''.'' # ext \<and> ext \<in> {''md'', ''txt'', ''rst''} \<and>
      (\<forall>c\<in>set body. \<not> isLineTerminator c))"
proof
  assume a: "d \<noteq> [] \<and> d ! 0 = CHR ''+'' \<and>
     (\<exists>j. 1 \<le> j \<and> j < length d \<and> (\<forall>t. 1 \<le> t \<and> t < j \<longrightarrow> \<not> isLineTerminator (d ! t)) \<and>
          d ! j = CHR ''.'' \<and> drop (Suc j) d \<in> {''md'', ''txt'', ''rst''})"
  then obtain xs where d: "d = CHR ''+'' # xs" by (cases d) auto
  from a obtain j where j: "1 \<le> j" "j < length d"
    "\<forall>t. 1 \<le> t \<and> t < j \<longrightarrow> \<not> isLineTerminator (d ! t)"
    "d ! j = CHR ''.''" "drop (Suc j) d \<in> {''md'', ''txt'', ''rst''}" by blast
  from j(1) obtain k where k: "j = Suc k" by (cases j) auto
  with j d have kl: "k < length xs" and dot: "xs ! k = CHR ''.''"
    and ext: "drop (Suc k) xs \<in> {''md'', ''txt'', ''rst''}" by simp_all
  have body: "\<not> isLineTerminator c" if "c \<in> set (take k xs)" for c
  proof -
    from that obtain t where t: "t < length (take k xs)" "c = take k xs ! t"
      by (auto simp: in_set_conv_nth)
    then have "t < k" by simp
    with t have "c = d ! Suc t" by (simp add: d)
    moreover from \<open>t < k\<close> j(3) k have "\<not> isLineTerminator (d ! Suc t)" by simp
    ultimately show ?thesis by simp
  qed
  from kl have "xs = take k xs @ xs ! k # drop (Suc k) xs" by (rule id_take_nth_drop)
  with d dot have "d = CHR ''+'' # take k xs @ CHR ''.'' # drop (Suc k) xs" by simp
  with ext body show "\<exists>body ext. d = CHR ''+'' # body @ CHR ''.'' # ext \<and>
      ext \<in> {''md'', ''txt'', ''rst''} \<and> (\<forall>c\<in>set body. \<not> isLineTerminator c)" by blast
next
  assume "\<exists>body ext. d = CHR ''+'' # body @ CHR ''.'' # ext \<and> ext \<in> {''md'', ''txt'', ''rst''} \<and>
      (\<forall>c\<in>set body. \<not> isLineTerminator c)"
  then obtain body ext where d: "d = CHR ''+'' # body @ CHR ''.'' # ext"
    and ext: "ext \<in> {''md'', ''txt'', ''rst''}"
    and body: "\<forall>c\<in>set body. \<not> isLineTerminator c" by blast
  let ?j = "Suc (length body)"
  have "1 \<le> ?j" "?j < length d" "d ! ?j = CHR ''.''" "drop (Suc ?j) d = ext"
    by (simp_all add: d)
  moreover have "\<not> isLineTerminator (d ! t)" if "1 \<le> t \<and> t < ?j" for t
  proof -
    from that obtain u where u: "t = Suc u" "u < length body" by (cases t) auto
    then have "d ! t = body ! u" by (simp add: d nth_append)
    with u body show ?thesis by simp
  qed
  ultimately have "\<exists>j. 1 \<le> j \<and> j < length d \<and>
      (\<forall>t. 1 \<le> t \<and> t < j \<longrightarrow> \<not> isLineTerminator (d ! t)) \<and>
      d ! j = CHR ''.'' \<and> drop (Suc j) d \<in> {''md'', ''txt'', ''rst''}"
    using ext by blast
  with d show "d \<noteq> [] \<and> d ! 0 = CHR ''+'' \<and>
     (\<exists>j. 1 \<le> j \<and> j < length d \<and> (\<forall>t. 1 \<le> t \<and> t < j \<longrightarrow> \<not> isLineTerminator (d ! t)) \<and>
          d ! j = CHR ''.'' \<and> drop (Suc j) d \<in> {''md'', ''txt'', ''rst''})" by simp
qed

lemma isDocAdditionLine_iff:
  "isDocAdditionLine d \<longleftrightarrow>
   (\<exists>body ext. d = CHR ''+'' # body @ CHR ''.'' # ext \<and> ext \<in> {''md'', ''txt'', ''rst''} \<and>
      (\<forall>c\<in>set body. \<not> isLineTerminator c))"
proof
  assume a: "isDocAdditionLine d"
  then obtain rest where d: "d = CHR ''+'' # rest"
    by (cases d) (auto simp: isDocAdditionLine_def)
  with a have nl: "\<forall>c\<in>set rest. \<not> isLineTerminator c"
    and e: "endsWith rest ''.md'' \<or> endsWith rest ''.txt'' \<or> endsWith rest ''.rst''"
    by (auto simp: isDocAdditionLine_def some_iff)
  from e obtain pre ext where "rest = pre @ CHR ''.'' # ext" "ext \<in> {''md'', ''txt'', ''rst''}"
    unfolding endsWith_iff by auto
  with d nl show "\<exists>body ext. d = CHR ''+'' # body @ CHR ''.'' # ext \<and>
      ext \<in> {''md'', ''txt'', ''rst''} \<and> (\<forall>c\<in>set body. \<not> isLineTerminator c)" by auto
next
  assume "\<exists>body ext. d = CHR ''+'' # body @ CHR ''.'' # ext \<and> ext \<in> {''md'', ''txt'', ''rst''} \<and>
      (\<forall>c\<in>set body. \<not> isLineTerminator c)"
  then obtain body ext where d: "d = CHR ''+'' # body @ CHR ''.'' # ext"
    and ext: "ext \<in> {''md'', ''txt'', ''rst''}"
    and body: "\<forall>c\<in>set body. \<not> isLineTerminator c" by blast
  from ext have "\<forall>c\<in>set (CHR ''.'' # ext). \<not> isLineTerminator c"
    by (auto simp: isLineTerminator_def)
  with body have "\<not> some isLineTerminator (body @ CHR ''.'' # ext)"
    unfolding some_iff by auto
  moreover from ext have "endsWith (body @ CHR ''.'' # ext) ''.md'' \<or>
      endsWith (body @ CHR ''.'' # ext) ''.txt'' \<or> endsWith (body @ CHR ''.'' # ext) ''.rst''"
    unfolding endsWith_iff by auto
  ultimately show "isDocAdditionLine d" by (simp add: isDocAdditionLine_def d)
qed

lemma isTrivialChange_iff: "isTrivialChange d \<longleftrightarrow> hasWhitespaceRun d \<or> isDocAdditionLine d"
proof -
  have "isTrivialChange d \<longleftrightarrow>
      (\<exists>j\<le>length d. ends False d whitespaceRun j \<noteq> [] \<or> ends False d docAddition j \<noteq> [])"
    unfolding isTrivialChange_def matchNonGlobal_def searchFrom_iff trivialChangeRegex_def
    by auto
  also have "\<dots> \<longleftrightarrow> (\<exists>j\<le>length d. ends False d whitespaceRun j \<noteq> []) \<or>
      (\<exists>j\<le>length d. ends False d docAddition j \<noteq> [])" by blast
  also have "(\<exists>j\<le>length d. ends False d whitespaceRun j \<noteq> []) \<longleftrightarrow> hasWhitespaceRun d"
    unfolding ends_whitespaceRun hasWhitespaceRun_iff
    by (metis Suc_lessD less_imp_le_nat)
  also have "(\<exists>j\<le>length d. ends False d docAddition j \<noteq> []) \<longleftrightarrow> isDocAdditionLine d"
    unfolding docAddition_match isDocAdditionLine_iff docAddition_decomposition [symmetric]
    by auto
  finally show ?thesis .
qed

lemma trivialPatterns_cc_subset: "set trivialPatterns_cc \<subseteq> set trivialPatterns"
  by (simp add: trivialPatterns_cc_def trivialPatterns_def)

lemma isTrivialCommitMessage_cc_iff:
  "isTrivialCommitMessage_cc m \<longleftrightarrow>
     (\<exists>p\<in>set trivialPatterns_cc. \<exists>pre post. toLowerCase m = pre @ p @ post)"
  by (simp add: isTrivialCommitMessage_cc_def some_iff includes_str_iff)

text \<open>
  Claim C9. \<open>isTrivialChange\<close> holds for every diff with two white-space characters in a
  row, wherever they are; a line break followed by a space is such a run. The alternative
  for documentation files matches exactly the texts \<open>+body.ext\<close> in which \<open>ext\<close> is
  \<open>md\<close>, \<open>txt\<close> or \<open>rst\<close> and \<open>body\<close> has no line terminator: without the flag \<open>m\<close>
  the whole diff has to be that one line. \<open>isTrivialChange\<close> holds in no other case.
\<close>

theorem trivial_change_regex:
  "(Suc i < length d \<and> isWhiteSpace (d ! i) \<and> isWhiteSpace (d ! Suc i) \<longrightarrow> isTrivialChange d) \<and>
   (matchNonGlobal False docAddition d \<noteq> None \<longleftrightarrow>
      (\<exists>body ext. d = CHR ''+'' # body @ CHR ''.'' # ext \<and> ext \<in> {''md'', ''txt'', ''rst''} \<and>
         (\<forall>c\<in>set body. \<not> isLineTerminator c))) \<and>
   (matchNonGlobal False docAddition d \<noteq> None \<longrightarrow> (\<forall>c\<in>set d. \<not> isLineTerminator c)) \<and>
   (isTrivialChange d \<longleftrightarrow>
      (\<exists>i. Suc i < length d \<and> isWhiteSpace (d ! i) \<and> isWhiteSpace (d ! Suc i)) \<or>
      matchNonGlobal False docAddition d \<noteq> None)"
proof -
  have doc: "matchNonGlobal False docAddition d \<noteq> None \<longleftrightarrow> isDocAdditionLine d"
  proof -
    have "matchNonGlobal False docAddition d \<noteq> None \<longleftrightarrow>
        (\<exists>j\<le>length d. ends False d docAddition j \<noteq> [])"
      unfolding matchNonGlobal_def searchFrom_iff by auto
    also have "\<dots> \<longleftrightarrow> isDocAdditionLine d"
      unfolding docAddition_match isDocAdditionLine_iff docAddition_decomposition [symmetric]
      by auto
    finally show ?thesis .
  qed
  have 1: "isTrivialChange d"
    if "Suc i < length d \<and> isWhiteSpace (d ! i) \<and> isWhiteSpace (d ! Suc i)"
    using that unfolding isTrivialChange_iff hasWhitespaceRun_iff by blast
  have 3: "\<forall>c\<in>set d. \<not> isLineTerminator c" if "matchNonGlobal False docAddition d \<noteq> None"
  proof -
    from that doc obtain body ext where d: "d = CHR ''+'' # body @ CHR ''.'' # ext"
      and ext: "ext \<in> {''md'', ''txt'', ''rst''}"
      and body: "\<forall>c\<in>set body. \<not> isLineTerminator c"
      unfolding isDocAdditionLine_iff by blast
    from ext have "\<forall>c\<in>set (CHR ''+'' # CHR ''.'' # ext). \<not> isLineTerminator c"
      by (auto simp: isLineTerminator_def)
    with body show ?thesis unfolding d by auto
  qed
  show ?thesis
    using 1 3 doc [unfolded isDocAdditionLine_iff] isTrivialChange_iff [of d]
    unfolding hasWhitespaceRun_iff doc by blast
qed

theorem trivial_change_regex_witness:
  "isTrivialChange (''+a'' @ [CHR 0x0A] @ '' b'') \<and>
   matchNonGlobal False docAddition ''+docs/README.md'' \<noteq> None \<and>
   \<not> some isLineTerminator ''+docs/README.md'' \<and>
   \<not> isTrivialChange (''+a.md'' @ [CHR 0x0A] @ ''+b.md'')"
proof -
  let ?d = "''+a'' @ [CHR 0x0A] @ '' b''"
  have h: "Suc 2 < length ?d \<and> isWhiteSpace (?d ! 2) \<and> isWhiteSpace (?d ! Suc 2)"
    by code_simp
  note a = trivial_change_regex [of 2 ?d, THEN conjunct1, THEN mp, OF h]
  have e: "\<exists>body ext. ''+docs/README.md'' = CHR ''+'' # body @ CHR ''.'' # ext \<and>
      ext \<in> {''md'', ''txt'', ''rst''} \<and> (\<forall>c\<in>set body. \<not> isLineTerminator c)"
    by (intro exI [of _ "''docs/README''"] exI [of _ "''md''"]) (simp add: isLineTerminator_def)
  note b = trivial_change_regex [of 0 "''+docs/README.md''", THEN conjunct2, THEN conjunct1,
      THEN iffD2, OF e]
  note c = trivial_change_regex [of 0 "''+docs/README.md''", THEN conjunct2, THEN conjunct2,
      THEN conjunct1, THEN mp, OF b]
  from c have c': "\<not> some isLineTerminator ''+docs/README.md''"
    unfolding some_iff by blast
  have n: "\<not> isTrivialChange (''+a.md'' @ [CHR 0x0A] @ ''+b.md'')" by code_simp
  from a b c' n show ?thesis by (intro conjI)
qed

text \<open>
  Claim C7. Take a commit message in whose lower-cased text a trivial phrase occurs, and
  a staged diff without two white-space characters in a row that is not a single added
  documentation line. \<open>check-commit.js\<close>, which asks the diff to look trivial as well,
  allows the commit (status 0); the commit-message hook, which does not look at the diff,
  blocks it (status 1). The phrases of \<open>check-commit.js\<close> are among those of the hook.
\<close>

theorem diff_corroboration:
  assumes "getLastCommitMessage w = Inr m" and "getStagedChanges w = Inr d"
    and "getCommitMessage w' = Inr m" and "getStagedChanges w' = Inr d"
    and "p \<in> set trivialPatterns_cc \<or> p \<in> set trivialPatterns"
    and "toLowerCase m = pre @ p @ post"
    and "\<not> hasWhitespaceRun d" and "\<not> isDocAdditionLine d"
  shows "main_cc w = Exit 0 [MessageAndChangesOkProceeding] \<and>
         main w' = Exit 1 [TrivialMessageDetected m, ShouldBeInMeaningfulCommit,
                           PleaseUseAmend, KeepsHistoryClean]"
proof -
  from assms(7,8) have "\<not> isTrivialChange d" by (simp add: isTrivialChange_iff)
  with assms(1,2) have cc: "main_cc w = Exit 0 [MessageAndChangesOkProceeding]"
    by (simp add: main_cc_def)
  from assms(5) trivialPatterns_cc_subset have p: "p \<in> set trivialPatterns" by blast
  with assms(6) have flag: "isTrivialCommitMessage m"
    unfolding isTrivialCommitMessage_iff by blast
  from p have "p \<noteq> []" by (rule trivialPatterns_nonempty)
  with assms(6) have "toLowerCase m \<noteq> []" by simp
  then have "m \<noteq> []" by (auto simp: toLowerCase_def)
  with flag assms(3,4) have "main w' = Exit 1 [TrivialMessageDetected m, ShouldBeInMeaningfulCommit,
                           PleaseUseAmend, KeepsHistoryClean]"
    by (simp add: main_def)
  with cc show ?thesis by simp
qed

theorem diff_corroboration_witness:
  "main_cc (repoWorld ''Fix typo in parser'' ''+x=1'') = Exit 0 [MessageAndChangesOkProceeding] \<and>
   main (repoWorld ''Fix typo in parser'' ''+x=1'') =
     Exit 1 [TrivialMessageDetected ''Fix typo in parser'', ShouldBeInMeaningfulCommit,
             PleaseUseAmend, KeepsHistoryClean]"
proof -
  let ?w = "repoWorld ''Fix typo in parser'' ''+x=1''"
  have 1: "getLastCommitMessage ?w = Inr ''Fix typo in parser''" by code_simp
  have 2: "getStagedChanges ?w = Inr ''+x=1''" by code_simp
  have 3: "getCommitMessage ?w = Inr ''Fix typo in parser''" by code_simp
  have 4: "''fix typo'' \<in> set trivialPatterns_cc \<or> ''fix typo'' \<in> set trivialPatterns"
    by (simp add: trivialPatterns_cc_def)
  have 5: "toLowerCase ''Fix typo in parser'' = [] @ ''fix typo'' @ '' in parser''" by code_simp
  have 6: "\<not> hasWhitespaceRun ''+x=1''" by code_simp
  have 7: "\<not> isDocAdditionLine ''+x=1''" by code_simp
  show ?thesis by (rule diff_corroboration [OF 1 2 3 2 4 5 6 7])
qed

end
